theory Spec2Isabelle
  imports Main "HOL-Library.AList"
begin

section \<open>Data model\<close>

text \<open>
  The program is the class \<open>CrosswordCreator\<close> of \<open>generate.py\<close>. It works on a
  \<open>Crossword\<close> object whose class (with the class \<open>Variable\<close>) lives in the module
  \<open>crossword\<close>, which is imported by \<open>generate.py\<close> but is not among the sources.

  Conventions of the embedding:
  \<^item> a Python \<open>set\<close> is a list of its elements in the order in which the set is iterated;
    only the elements matter for the results below, the order only for which of several
    tied candidates is tried first;
  \<^item> a Python \<open>dict\<close> whose order matters (an assignment) is an association list in
    insertion order;
  \<^item> an exception is a value \<open>Inl e\<close> of a sum type, a normal return is \<open>Inr v\<close>;
  \<^item> the mutable attribute \<open>self.domains\<close> is passed in and returned explicitly.
\<close>

datatype error = IndexError | KeyError | TypeError

datatype direction = ACROSS | DOWN

text \<open>
  Modelled from the spec: the class \<open>Variable\<close> of the missing module \<open>crossword\<close>: a slot
  with starting row, starting column, direction and length; two variables are equal iff
  all four attributes match.
\<close>

datatype variable =
  Variable (var_i: nat) (var_j: nat) (direction: direction) (var_length: nat)

text \<open>
  Modelled from the spec: the class \<open>Crossword\<close> of the missing module \<open>crossword\<close>, as far
  as the solver reads it: the set of variables, the word list, and the overlap map, which
  gives for a pair of variables either \<open>None\<close> (no shared cell) or the pair of offsets
  \<open>(i, j)\<close> at which their words must agree.
\<close>

record crossword =
  variables :: "variable list"
  words :: "string list"
  overlaps :: "variable \<Rightarrow> variable \<Rightarrow> (nat \<times> nat) option"

text \<open>
  Modelled from the spec: the overlap map is a dictionary that has an entry for every pair of
  distinct variables of the puzzle and no other; \<open>self.crossword.overlaps[x, y]\<close> raises
  \<open>KeyError\<close> for any other pair.
\<close>

definition overlaps_at :: "crossword \<Rightarrow> variable \<Rightarrow> variable \<Rightarrow> error + (nat \<times> nat) option" where
  "overlaps_at pz x y =
     (if x \<in> set (variables pz) \<and> y \<in> set (variables pz) \<and> x \<noteq> y
      then Inr (overlaps pz x y) else Inl KeyError)"

text \<open>
  Modelled from the spec: the method \<open>Crossword.neighbors\<close> of the missing module: for a
  variable, the set of all other variables with a non-null overlap.
\<close>

definition neighbors :: "crossword \<Rightarrow> variable \<Rightarrow> variable list" where
  "neighbors pz var = filter (\<lambda>v. v \<noteq> var \<and> overlaps pz v var \<noteq> None) (variables pz)"

text \<open>
  \<open>self.domains\<close>: a dictionary whose keys are exactly the variables of the puzzle (it is
  built so by \<open>__init__\<close> and no method adds or deletes a key). It is modelled as a function
  that is only ever read and written at variables of the puzzle; iterating over its items
  is iterating over \<open>variables pz\<close>.
\<close>

type_synonym domains = "variable \<Rightarrow> string list"

definition init_domains :: "crossword \<Rightarrow> domains" where
  "init_domains pz = (\<lambda>var. words pz)"

section \<open>Node consistency\<close>

text \<open>
  The inner loop of \<open>enforce_node_consistency\<close>: \<open>for test_word in words.copy()\<close>, removing
  from the set \<open>words\<close> every word whose length differs from the variable's. The second
  argument is the copy being iterated, the third the set being mutated.
\<close>

fun remove_mismatched :: "variable \<Rightarrow> string list \<Rightarrow> string list \<Rightarrow> string list" where
  "remove_mismatched var [] ws = ws"
| "remove_mismatched var (test_word # rest) ws =
     remove_mismatched var rest
       (if var_length var \<noteq> length test_word then removeAll test_word ws else ws)"

definition enforce_node_consistency :: "crossword \<Rightarrow> domains \<Rightarrow> domains" where
  "enforce_node_consistency pz doms =
     fold (\<lambda>var d. d(var := remove_mismatched var (d var) (d var))) (variables pz) doms"

section \<open>Arc consistency\<close>

text \<open>
  The inner loop of \<open>compare_domain\<close>, \<open>for yword in ywords\<close>: the value of the flag
  \<open>consistent\<close> when the loop is left. The flag is \<open>False\<close> whenever the loop goes on, and
  the loop is left by \<open>break\<close> as soon as it is \<open>True\<close>. Reading \<open>xword[x]\<close> or \<open>yword[y]\<close>
  at or beyond the end of the word raises \<open>IndexError\<close>.
\<close>

fun compare_ywords :: "nat \<Rightarrow> nat \<Rightarrow> string \<Rightarrow> string list \<Rightarrow> error + bool" where
  "compare_ywords x y xword [] = Inr False"
| "compare_ywords x y xword (yword # rest) =
     (if length yword < y \<or> xword = yword then compare_ywords x y xword rest
      else if length xword \<le> x \<or> length yword \<le> y then Inl IndexError
      else if xword ! x = yword ! y then Inr True
      else compare_ywords x y xword rest)"

text \<open>
  The outer loop, \<open>for xword in xwords.copy()\<close>: the second list is the copy being iterated,
  the last argument the set \<open>xwords\<close> being mutated. A word shorter than \<open>x\<close> is skipped by
  \<open>continue\<close>, which also skips its removal.
\<close>

fun compare_xwords ::
  "nat \<Rightarrow> nat \<Rightarrow> string list \<Rightarrow> string list \<Rightarrow> string list \<Rightarrow> error + string list" where
  "compare_xwords x y [] ywords xwords = Inr xwords"
| "compare_xwords x y (xword # rest) ywords xwords =
     (if length xword < x then compare_xwords x y rest ywords xwords
      else case compare_ywords x y xword ywords of
             Inl e \<Rightarrow> Inl e
           | Inr consistent \<Rightarrow>
               compare_xwords x y rest ywords
                 (if \<not> consistent then removeAll xword xwords else xwords))"

definition compare_domain :: "nat \<Rightarrow> nat \<Rightarrow> string list \<Rightarrow> string list \<Rightarrow> error + string list" where
  "compare_domain x y xwords ywords = compare_xwords x y xwords ywords xwords"

text \<open>
  \<open>revise\<close> returns the flag \<open>revised\<close> and the new value of \<open>self.domains\<close>. A pair of
  offsets is a non-empty tuple, so \<open>not o\<close> holds exactly when \<open>o\<close> is \<open>None\<close>.
\<close>

definition revise :: "crossword \<Rightarrow> domains \<Rightarrow> variable \<Rightarrow> variable \<Rightarrow> error + (bool \<times> domains)" where
  "revise pz doms x y =
     (case overlaps_at pz x y of
        Inl e \<Rightarrow> Inl e
      | Inr None \<Rightarrow> Inr (False, doms)
      | Inr (Some ov) \<Rightarrow>
          (case compare_domain (fst ov) (snd ov) (doms x) (doms y) of
             Inl e \<Rightarrow> Inl e
           | Inr new_xwords \<Rightarrow>
               (let revised = (length new_xwords \<noteq> length (doms x))
                in Inr (revised, if revised then doms(x := new_xwords) else doms))))"

type_synonym arc = "variable \<times> variable"

text \<open>The initial queue of \<open>ac3\<close>: every variable paired with each of its neighbors.\<close>

definition all_arcs :: "crossword \<Rightarrow> arc list" where
  "all_arcs pz =
     fold (\<lambda>var arcs. List.union arcs (map (\<lambda>v. (var, v)) (neighbors pz var))) (variables pz) []"

text \<open>
  The loop of \<open>ac3\<close>. \<open>arcs.pop()\<close> removes an arbitrary element of the set: which one is
  decided by the schedule \<open>sched\<close>, a parameter that gives for the \<open>i\<close>-th iteration of the
  loop the position of the popped arc in the queue (modulo the length of the queue).
  Every order in which the arcs can be popped is the run of some schedule.
\<close>

function ac3_loop ::
  "crossword \<Rightarrow> (nat \<Rightarrow> nat) \<Rightarrow> nat \<Rightarrow> domains \<Rightarrow> arc list \<Rightarrow> error + (bool \<times> domains)" where
  "ac3_loop pz sched i doms arcs =
     (if length arcs = 0 then Inr (True, doms)
      else
        (let k = sched i mod length arcs;
             x = fst (arcs ! k);
             y = snd (arcs ! k);
             arcs1 = take k arcs @ drop (Suc k) arcs
         in case revise pz doms x y of
              Inl e \<Rightarrow> Inl e
            | Inr r \<Rightarrow>
                if fst r then
                  if length (snd r x) = 0 then Inr (False, snd r)
                  else ac3_loop pz sched (Suc i) (snd r)
                         (List.union arcs1
                            (map (\<lambda>z. (z, x)) (filter (\<lambda>z. z \<noteq> y) (neighbors pz x))))
                else ac3_loop pz sched (Suc i) (snd r) arcs1))"
  by pat_completeness auto

lemma removeAll_as_filter: "removeAll t ws = filter (\<lambda>w. w \<noteq> t) ws"
  by (induction ws) auto

text \<open>
  Termination of the loop: an iteration either leaves the domains as they are and shortens
  the queue, or strictly shortens the domain of a variable of the puzzle.
\<close>

lemma compare_ywords_True:
  "compare_ywords x y w ys = Inr True \<Longrightarrow>
   \<exists>v \<in> set ys. v \<noteq> w \<and> x < length w \<and> y < length v \<and> w ! x = v ! y"
  by (induction ys) (auto split: if_splits)

lemma compare_ywords_False:
  "compare_ywords x y w ys = Inr False \<Longrightarrow>
   \<forall>v \<in> set ys. length v < y \<or> v = w \<or> (x < length w \<and> y < length v \<and> w ! x \<noteq> v ! y)"
  by (induction ys) (auto split: if_splits)

lemma compare_xwords_filter:
  "compare_xwords x y it ywords xwords = Inr r \<Longrightarrow>
   r = filter (\<lambda>w. \<not> (w \<in> set it \<and> x \<le> length w \<and> compare_ywords x y w ywords = Inr False))
         xwords"
proof (induction it arbitrary: xwords)
  case Nil
  then show ?case by simp
next
  case (Cons t it)
  show ?case
  proof (cases "length t < x")
    case True
    with Cons.prems have "compare_xwords x y it ywords xwords = Inr r" by simp
    from Cons.IH [OF this] True show ?thesis
      by (auto intro!: filter_cong)
  next
    case False
    with Cons.prems obtain b where b: "compare_ywords x y t ywords = Inr b"
      and rest: "compare_xwords x y it ywords (if \<not> b then removeAll t xwords else xwords) = Inr r"
      by (auto split: sum.splits)
    from Cons.IH [OF rest] b False show ?thesis
      by (cases b) (auto simp: removeAll_as_filter intro!: filter_cong)
  qed
qed

lemma compare_domain_filter:
  "compare_domain x y xwords ywords = Inr r \<Longrightarrow>
   r = filter (\<lambda>w. \<not> (x \<le> length w \<and> compare_ywords x y w ywords = Inr False)) xwords"
  unfolding compare_domain_def
  by (drule compare_xwords_filter) (auto intro!: filter_cong)

lemma length_filter_neq:
  "length (filter P xs) \<noteq> length xs \<Longrightarrow> length (filter P xs) < length xs"
  using length_filter_le [of P xs] by linarith

lemma revise_False:
  "revise pz doms x y = Inr (False, d) \<Longrightarrow> d = doms"
  by (auto simp: revise_def Let_def split: sum.splits option.splits if_splits)

lemma revise_True:
  assumes "revise pz doms x y = Inr (True, d)"
  shows "x \<in> set (variables pz) \<and> y \<in> set (variables pz) \<and> x \<noteq> y
         \<and> (\<exists>a b. overlaps pz x y = Some (a, b)
               \<and> d = doms(x := filter (\<lambda>w. \<not> (a \<le> length w \<and> compare_ywords a b w (doms y) = Inr False)) (doms x)))
         \<and> length (d x) < length (doms x)"
proof -
  from assms obtain ov where ov: "overlaps_at pz x y = Inr (Some ov)"
    by (cases "overlaps_at pz x y") (auto simp: revise_def split: option.splits)
  with assms obtain r where r: "compare_domain (fst ov) (snd ov) (doms x) (doms y) = Inr r"
    by (cases "compare_domain (fst ov) (snd ov) (doms x) (doms y)") (auto simp: revise_def)
  from assms have neq: "length r \<noteq> length (doms x)"
    by (simp add: revise_def ov r Let_def)
  with assms have d: "d = doms(x := r)"
    by (simp add: revise_def ov r Let_def)
  from ov have vars: "x \<in> set (variables pz)" "y \<in> set (variables pz)" "x \<noteq> y"
    and o: "overlaps pz x y = Some (fst ov, snd ov)"
    by (auto simp: overlaps_at_def split: if_splits)
  note f = compare_domain_filter [OF r]
  from neq have "length r < length (doms x)"
    unfolding f by (rule length_filter_neq)
  then have len: "length (d x) < length (doms x)"
    by (simp add: d)
  have "\<exists>a b. overlaps pz x y = Some (a, b)
          \<and> d = doms(x := filter (\<lambda>w. \<not> (a \<le> length w \<and> compare_ywords a b w (doms y) = Inr False)) (doms x))"
    using o d f by blast
  with vars len show ?thesis by blast
qed

lemma sum_list_domains_upd:
  "x \<in> set vs \<Longrightarrow> length new < length (doms x) \<Longrightarrow>
   sum_list (map (\<lambda>v. length ((doms(x := new)) v)) vs) < sum_list (map (\<lambda>v. length (doms v)) vs)"
proof (induction vs)
  case Nil
  then show ?case by simp
next
  case (Cons v vs)
  have le: "sum_list (map (\<lambda>v. length ((doms(x := new)) v)) vs) \<le> sum_list (map (\<lambda>v. length (doms v)) vs)"
    using Cons.prems(2) by (intro sum_list_mono) auto
  show ?case
  proof (cases "v = x")
    case True
    with le Cons.prems(2) show ?thesis by simp
  next
    case False
    with Cons have "sum_list (map (\<lambda>v. length ((doms(x := new)) v)) vs) < sum_list (map (\<lambda>v. length (doms v)) vs)"
      by simp
    with False show ?thesis by simp
  qed
qed

lemma revise_True_measure:
  assumes "revise pz doms x y = Inr (True, d)"
  shows "sum_list (map (\<lambda>v. length (d v)) (variables pz))
           < sum_list (map (\<lambda>v. length (doms v)) (variables pz))"
proof -
  from revise_True [OF assms] obtain new where "x \<in> set (variables pz)" "d = doms(x := new)"
    "length (d x) < length (doms x)" by blast
  then show ?thesis
    using sum_list_domains_upd [of x "variables pz" new doms] by simp
qed

termination ac3_loop
proof (relation "measures [\<lambda>(pz, sched, i, doms, arcs). sum_list (map (\<lambda>v. length (doms v)) (variables pz)),
                           \<lambda>(pz, sched, i, doms, arcs). length arcs]", goal_cases)
  case 1
  then show ?case by simp
next
  case (2 pz sched i doms arcs k x y arcs1 r)
  then have "revise pz doms x y = Inr (True, snd r)"
    by (cases r) simp
  from revise_True_measure [OF this] show ?case by simp
next
  case (3 pz sched i doms arcs k x y arcs1 r)
  then have "revise pz doms x y = Inr (False, snd r)"
    by (cases r) simp
  from revise_False [OF this] have "snd r = doms" .
  moreover from 3 have "k < length arcs"
    by simp
  then have "length (take k arcs @ drop (Suc k) arcs) < length arcs"
    by simp
  with 3 have "length arcs1 < length arcs"
    by blast
  ultimately show ?case by simp
qed

section \<open>Backtracking search\<close>

text \<open>
  An assignment is a dictionary from variables to words, in insertion order:
  \<open>assignment[var] = value\<close> is \<open>AList.update var value\<close> (in place when the key is
  present, at the end otherwise) and \<open>assignment.pop(var)\<close> is \<open>AList.delete var\<close>.
\<close>

type_synonym assignment = "(variable \<times> string) list"

definition assignment_complete :: "crossword \<Rightarrow> assignment \<Rightarrow> bool" where
  "assignment_complete pz a = (set (variables pz) - set (map fst a) = {})"

text \<open>
  \<open>consistent\<close>: the inner loop over the items of the assignment for one item
  \<open>(var, word)\<close>, the outer loop over the items, and the test for duplicate words before
  them. \<open>Inr False\<close> is \<open>return False\<close>; in the loops \<open>Inr True\<close> means that the loop ran
  to its end.
\<close>

fun consistent_neighbors :: "crossword \<Rightarrow> variable \<Rightarrow> string \<Rightarrow> assignment \<Rightarrow> error + bool" where
  "consistent_neighbors pz var word [] = Inr True"
| "consistent_neighbors pz var word ((nvar, nword) # rest) =
     (if nvar \<noteq> var then
        (case overlaps_at pz nvar var of
           Inl e \<Rightarrow> Inl e
         | Inr None \<Rightarrow> consistent_neighbors pz var word rest
         | Inr (Some ov) \<Rightarrow>
             if length nword \<le> fst ov \<or> length word \<le> snd ov then Inl IndexError
             else if nword ! fst ov \<noteq> word ! snd ov then Inr False
             else consistent_neighbors pz var word rest)
      else consistent_neighbors pz var word rest)"

fun consistent_items :: "crossword \<Rightarrow> assignment \<Rightarrow> assignment \<Rightarrow> error + bool" where
  "consistent_items pz a [] = Inr True"
| "consistent_items pz a ((var, word) # rest) =
     (if length word \<noteq> var_length var then Inr False
      else (case consistent_neighbors pz var word a of
              Inl e \<Rightarrow> Inl e
            | Inr ok \<Rightarrow> if ok then consistent_items pz a rest else Inr False))"

definition consistent :: "crossword \<Rightarrow> assignment \<Rightarrow> error + bool" where
  "consistent pz a =
     (if length a \<noteq> card (set (map snd a)) then Inr False else consistent_items pz a a)"

text \<open>
  \<open>order_domain_values\<close>: the three nested loops that fill the dictionary \<open>ruled_out\<close>,
  innermost first. Unpacking \<open>x, y = self.crossword.overlaps[var, nvar]\<close> raises
  \<open>TypeError\<close> when the entry is \<open>None\<close>. \<open>sorted\<close> is stable, as \<open>sort_key\<close> is.
\<close>

fun count_ruled_out :: "nat \<Rightarrow> nat \<Rightarrow> string \<Rightarrow> string list \<Rightarrow> nat \<Rightarrow> error + nat" where
  "count_ruled_out x y our_word [] n = Inr n"
| "count_ruled_out x y our_word (n_word # rest) n =
     (if length our_word \<le> x \<or> length n_word \<le> y then Inl IndexError
      else count_ruled_out x y our_word rest (if our_word ! x \<noteq> n_word ! y then n + 1 else n))"

fun ruled_out_neighbors ::
  "crossword \<Rightarrow> domains \<Rightarrow> variable \<Rightarrow> string \<Rightarrow> variable list \<Rightarrow> nat \<Rightarrow> error + nat" where
  "ruled_out_neighbors pz doms var our_word [] n = Inr n"
| "ruled_out_neighbors pz doms var our_word (nvar # rest) n =
     (case overlaps_at pz var nvar of
        Inl e \<Rightarrow> Inl e
      | Inr None \<Rightarrow> Inl TypeError
      | Inr (Some ov) \<Rightarrow>
          (case count_ruled_out (fst ov) (snd ov) our_word (doms nvar) n of
             Inl e \<Rightarrow> Inl e
           | Inr n' \<Rightarrow> ruled_out_neighbors pz doms var our_word rest n'))"

fun ruled_out_words ::
  "crossword \<Rightarrow> domains \<Rightarrow> variable \<Rightarrow> variable list \<Rightarrow> string list \<Rightarrow> (string \<rightharpoonup> nat)
     \<Rightarrow> error + (string \<rightharpoonup> nat)" where
  "ruled_out_words pz doms var nb [] ruled_out = Inr ruled_out"
| "ruled_out_words pz doms var nb (our_word # rest) ruled_out =
     (case ruled_out_neighbors pz doms var our_word nb 0 of
        Inl e \<Rightarrow> Inl e
      | Inr n \<Rightarrow> ruled_out_words pz doms var nb rest (ruled_out(our_word \<mapsto> n)))"

definition order_domain_values ::
  "crossword \<Rightarrow> domains \<Rightarrow> variable \<Rightarrow> assignment \<Rightarrow> error + string list" where
  "order_domain_values pz doms var a =
     (let nb = filter (\<lambda>v. v \<notin> set (map fst a)) (neighbors pz var)
      in case ruled_out_words pz doms var nb (doms var) Map.empty of
           Inl e \<Rightarrow> Inl e
         | Inr ruled_out \<Rightarrow> Inr (sort_key (\<lambda>word. the (ruled_out word)) (doms var)))"

text \<open>
  \<open>select_unassigned_variable\<close>: \<open>sorted(..., reverse=True)\<close> keeps the order of elements
  with equal keys, so it is the stable sort by the negated key. \<open>s[0]\<close> raises
  \<open>IndexError\<close> on the empty list.
\<close>

definition select_unassigned_variable ::
  "crossword \<Rightarrow> domains \<Rightarrow> assignment \<Rightarrow> error + variable" where
  "select_unassigned_variable pz doms a =
     (let vars = filter (\<lambda>v. v \<notin> set (map fst a)) (variables pz);
          num_vals = (\<lambda>v. length (doms v));
          deg = (\<lambda>v. length (neighbors pz v));
          s = sort_key num_vals (sort_key (\<lambda>d. - int (deg d)) vars)
      in case s of [] \<Rightarrow> Inl IndexError | v # _ \<Rightarrow> Inr v)"

text \<open>
  \<open>backtrack\<close> and its \<open>for\<close> loop over the ordered values. The dictionary \<open>assignment\<close>
  is mutated in place, so the functions return, next to the result, the assignment as the
  call leaves it. The last component counts the calls of \<open>backtrack\<close> made so far; it is
  the one addition to the source and records whether and how often the search was entered.
  \<open>if result:\<close> holds when the result is neither \<open>None\<close> nor the empty dictionary.
\<close>

function (domintros)
  backtrack :: "crossword \<Rightarrow> domains \<Rightarrow> assignment \<Rightarrow> nat
                  \<Rightarrow> error + (assignment option \<times> assignment \<times> nat)"
  and backtrack_loop :: "crossword \<Rightarrow> domains \<Rightarrow> variable \<Rightarrow> string list \<Rightarrow> assignment \<Rightarrow> nat
                  \<Rightarrow> error + (assignment option \<times> assignment \<times> nat)"
where
  "backtrack pz doms a calls =
     (if assignment_complete pz a then Inr (Some a, a, Suc calls)
      else (case select_unassigned_variable pz doms a of
              Inl e \<Rightarrow> Inl e
            | Inr var \<Rightarrow>
                (case order_domain_values pz doms var a of
                   Inl e \<Rightarrow> Inl e
                 | Inr vals \<Rightarrow> backtrack_loop pz doms var vals a (Suc calls))))"
| "backtrack_loop pz doms var [] a calls = Inr (None, a, calls)"
| "backtrack_loop pz doms var (val # rest) a calls =
     (case consistent pz (AList.update var val a) of
        Inl e \<Rightarrow> Inl e
      | Inr ok \<Rightarrow>
          if ok then
            (case backtrack pz doms (AList.update var val a) calls of
               Inl e \<Rightarrow> Inl e
             | Inr r \<Rightarrow>
                 if fst r \<noteq> None \<and> fst r \<noteq> Some [] then Inr r
                 else backtrack_loop pz doms var rest (AList.delete var (fst (snd r))) (snd (snd r)))
          else backtrack_loop pz doms var rest (AList.delete var (AList.update var val a)) calls)"
  by pat_completeness auto


text \<open>
  Termination. The loop goes on with the assignment that the recursive call has left, so
  the proof needs to know what a terminating call leaves: on failure the assignment it was
  given, on success a non-empty assignment.
\<close>

lemma select_unassigned_variable_Inr:
  assumes "select_unassigned_variable pz doms a = Inr var"
  shows "var \<in> set (variables pz) \<and> var \<notin> fst ` set a"
proof -
  let ?vars = "filter (\<lambda>v. v \<notin> set (map fst a)) (variables pz)"
  let ?s = "sort_key (\<lambda>v. length (doms v)) (sort_key (\<lambda>d. - int (length (neighbors pz d))) ?vars)"
  from assms obtain rest where "?s = var # rest"
    by (auto simp: select_unassigned_variable_def Let_def split: list.splits)
  then have "var \<in> set ?s"
    by simp
  then show ?thesis
    by simp
qed

lemma keys_delete: "fst ` set (AList.delete k al) = fst ` set al - {k}"
proof -
  have "set (map fst (AList.delete k al)) = set (map fst al) - {k}"
    by (simp only: AList.delete_keys set_removeAll)
  then show ?thesis
    by simp
qed

lemma keys_delete_update:
  "insert var (fst ` set (AList.delete var (AList.update var val a))) = insert var (fst ` set a)"
  by (simp add: keys_delete AList.dom_update)

lemma backtrack_partial:
  "backtrack_backtrack_loop_dom (Inl (pz, doms, a, calls)) \<Longrightarrow>
     backtrack pz doms a calls = Inr (res, a', calls') \<Longrightarrow>
       (res = None \<longrightarrow> a' = a) \<and> (\<forall>r. res = Some r \<longrightarrow> r = a' \<and> (a \<noteq> [] \<longrightarrow> r \<noteq> []))"
  "backtrack_backtrack_loop_dom (Inr (pz, doms, var, vals, a, calls)) \<Longrightarrow>
     var \<notin> fst ` set a \<Longrightarrow>
     backtrack_loop pz doms var vals a calls = Inr (res, a', calls') \<Longrightarrow>
       (res = None \<longrightarrow> a' = a) \<and> (\<forall>r. res = Some r \<longrightarrow> r = a' \<and> r \<noteq> [])"
proof (induction pz doms a calls and pz doms var vals a calls arbitrary: res a' calls' and res a' calls'
        rule: backtrack_backtrack_loop.pinduct)
  case (1 pz doms a calls)
  show ?case
  proof (cases "assignment_complete pz a")
    case True
    with 1(1,3) show ?thesis
      by (auto simp add: backtrack.psimps)
  next
    case False
    with 1(1,3) obtain var vals where var: "select_unassigned_variable pz doms a = Inr var"
      and vals: "order_domain_values pz doms var a = Inr vals"
      and loop: "backtrack_loop pz doms var vals a (Suc calls) = Inr (res, a', calls')"
      by (auto simp: backtrack.psimps split: sum.splits)
    from select_unassigned_variable_Inr [OF var] have "var \<notin> fst ` set a"
      by simp
    from 1(2) [OF False var vals this loop] show ?thesis
      by simp
  qed
next
  case (2 pz doms var a calls)
  then show ?case
    by (simp add: backtrack_loop.psimps)
next
  case (3 pz doms var val rest a calls)
  let ?a1 = "AList.update var val a"
  from 3(1,6) obtain ok where ok: "consistent pz ?a1 = Inr ok"
    by (auto simp: backtrack_loop.psimps split: sum.splits)
  have del: "AList.delete var ?a1 = a"
    using 3(5) by (simp add: AList.delete_update_same)
  show ?case
  proof (cases ok)
    case False
    with 3(1,6) ok have "backtrack_loop pz doms var rest (AList.delete var ?a1) calls = Inr (res, a', calls')"
      by (simp add: backtrack_loop.psimps)
    then have "backtrack_loop pz doms var rest a calls = Inr (res, a', calls')"
      by (simp only: del)
    from 3(4) [OF ok False, unfolded del, OF 3(5) this] show ?thesis .
  next
    case True
    with 3(1,6) ok obtain r where r: "backtrack pz doms ?a1 calls = Inr r"
      by (auto simp: backtrack_loop.psimps split: sum.splits)
    obtain res1 a1 c1 where r_eq: "r = (res1, a1, c1)"
      by (cases r)
    note inner = 3(2) [OF ok True r [unfolded r_eq]]
    show ?thesis
    proof (cases "fst r \<noteq> None \<and> fst r \<noteq> Some []")
      case True
      with 3(1,6) ok \<open>ok\<close> r have "Inr r = Inr (res, a', calls')"
        by (simp add: backtrack_loop.psimps)
      with r_eq inner True show ?thesis
        by auto
    next
      case False
      with inner r_eq have none: "res1 = None" and a1: "a1 = ?a1"
        by auto
      from False 3(1,6) ok \<open>ok\<close> r
      have "backtrack_loop pz doms var rest (AList.delete var (fst (snd r))) (snd (snd r)) = Inr (res, a', calls')"
        by (auto simp add: backtrack_loop.psimps)
      then have "backtrack_loop pz doms var rest a c1 = Inr (res, a', calls')"
        by (simp add: r_eq a1 del)
      moreover have "AList.delete var (fst (snd r)) = a" "snd (snd r) = c1"
        by (simp_all add: r_eq a1 del)
      ultimately show ?thesis
        using 3(3) [OF ok \<open>ok\<close> r False] 3(5) by simp
    qed
  qed
qed

lemma backtrack_total: "All backtrack_backtrack_loop_dom"
proof (rule "backtrack_backtrack_loop.termination" [where R = "measures
    [\<lambda>x. case x of
        Inl (pz, doms, a, calls) \<Rightarrow> 3 * card (set (variables pz) - fst ` set a)
      | Inr (pz, doms, var, vals, a, calls) \<Rightarrow>
          3 * card (set (variables pz) - insert var (fst ` set a)) + 2,
     \<lambda>x. case x of Inl _ \<Rightarrow> 0 | Inr (pz, doms, var, vals, a, calls) \<Rightarrow> length vals]"],
    goal_cases)
  case 1
  then show ?case by simp
next
  case (2 pz doms a calls var vals)
  from select_unassigned_variable_Inr [OF 2(2)]
  have "var \<in> set (variables pz) - fst ` set a"
    by simp
  then have "card (set (variables pz) - insert var (fst ` set a)) < card (set (variables pz) - fst ` set a)"
    by (intro psubset_card_mono) auto
  then show ?case
    by simp
next
  case (3 pz doms var val rest a calls ok)
  then show ?case
    by (simp add: AList.dom_update)
next
  case (4 pz doms var val rest a calls ok r)
  obtain res1 a1 c1 where r_eq: "r = (res1, a1, c1)"
    by (cases r)
  from backtrack_partial(1) [OF 4(5) 4(3) [unfolded r_eq]] 4(4) r_eq
  have "a1 = AList.update var val a"
    by auto
  then have "insert var (fst ` set (AList.delete var (fst (snd r)))) = insert var (fst ` set a)"
    using r_eq by (simp add: keys_delete_update)
  then show ?case
    by simp
next
  case (5 pz doms var val rest a calls ok)
  have "insert var (fst ` set (AList.delete var (AList.update var val a))) = insert var (fst ` set a)"
    by (rule keys_delete_update)
  then show ?case
    by simp
qed

termination backtrack
  by (rule backtrack_total)

declare ac3_loop.simps [simp del]

declare backtrack.simps [simp del]

section \<open>The solver\<close>

text \<open>
  \<open>ac3\<close>: \<open>not arcs\<close> holds for \<open>None\<close> and for an empty collection.
\<close>

definition ac3 ::
  "crossword \<Rightarrow> (nat \<Rightarrow> nat) \<Rightarrow> domains \<Rightarrow> arc list option \<Rightarrow> error + (bool \<times> domains)" where
  "ac3 pz sched doms arcs =
     (if arcs = None \<or> arcs = Some [] then ac3_loop pz sched 0 doms (all_arcs pz)
      else ac3_loop pz sched 0 doms (the arcs))"

text \<open>
  \<open>solve\<close> returns the result of \<open>backtrack\<close>; the model returns with it the final value of
  \<open>self.domains\<close> and the number of calls of \<open>backtrack\<close>. The value that \<open>ac3\<close> returns
  is not used.
\<close>

definition solve ::
  "crossword \<Rightarrow> (nat \<Rightarrow> nat) \<Rightarrow> domains \<Rightarrow> error + (assignment option \<times> domains \<times> nat)" where
  "solve pz sched doms =
     (let doms1 = enforce_node_consistency pz doms
      in case ac3 pz sched doms1 None of
           Inl e \<Rightarrow> Inl e
         | Inr r \<Rightarrow>
             (case backtrack pz (snd r) [] 0 of
                Inl e \<Rightarrow> Inl e
              | Inr b \<Rightarrow> Inr (fst b, snd r, snd (snd b))))"

section \<open>Predicates of the specification\<close>

text \<open>
  Node consistency of the domains; a puzzle as the missing class builds it (the overlap map
  is symmetric and its offsets lie inside the two slots); and arc consistency of \<open>x\<close> with
  respect to \<open>y\<close> for the overlap \<open>(a, b)\<close>: every word of \<open>x\<close> has a different word of
  \<open>y\<close> that agrees with it at the offsets.
\<close>

definition node_consistent :: "crossword \<Rightarrow> domains \<Rightarrow> bool" where
  "node_consistent pz doms =
     (\<forall>v \<in> set (variables pz). \<forall>w \<in> set (doms v). length w = var_length v)"

definition wf_crossword :: "crossword \<Rightarrow> bool" where
  "wf_crossword pz =
     (\<forall>x \<in> set (variables pz). \<forall>y \<in> set (variables pz). x \<noteq> y \<longrightarrow>
        (case overlaps pz x y of
           None \<Rightarrow> overlaps pz y x = None
         | Some ov \<Rightarrow> overlaps pz y x = Some (snd ov, fst ov)
                       \<and> fst ov < var_length x \<and> snd ov < var_length y))"

definition arc_consistent :: "domains \<Rightarrow> variable \<Rightarrow> variable \<Rightarrow> nat \<Rightarrow> nat \<Rightarrow> bool" where
  "arc_consistent doms x y a b =
     (\<forall>w \<in> set (doms x). \<exists>v \<in> set (doms y). v \<noteq> w \<and> a < length w \<and> b < length v \<and> w ! a = v ! b)"

text \<open>
  The consistency of an assignment in the words of the specification: the words of
  different variables are different, every word has the length of its variable, and the
  words of two variables with a defined overlap agree at the offsets of the overlap. A
  solution for given domains is a dictionary that assigns to every variable of the puzzle,
  and to nothing else, a word of its domain, and is consistent.
\<close>

definition agree :: "crossword \<Rightarrow> variable \<Rightarrow> string \<Rightarrow> variable \<Rightarrow> string \<Rightarrow> bool" where
  "agree pz x wx y wy =
     (case overlaps pz x y of
        None \<Rightarrow> True
      | Some ov \<Rightarrow> fst ov < length wx \<and> snd ov < length wy \<and> wx ! fst ov = wy ! snd ov)"

definition consistent_spec :: "crossword \<Rightarrow> assignment \<Rightarrow> bool" where
  "consistent_spec pz a =
     ((\<forall>(x, wx) \<in> set a. \<forall>(y, wy) \<in> set a. x \<noteq> y \<longrightarrow> wx \<noteq> wy)
      \<and> (\<forall>(x, wx) \<in> set a. length wx = var_length x)
      \<and> (\<forall>(x, wx) \<in> set a. \<forall>(y, wy) \<in> set a. x \<noteq> y \<longrightarrow> agree pz x wx y wy))"

definition solution :: "crossword \<Rightarrow> domains \<Rightarrow> assignment \<Rightarrow> bool" where
  "solution pz doms s =
     (distinct (map fst s) \<and> fst ` set s = set (variables pz)
      \<and> (\<forall>(v, w) \<in> set s. w \<in> set (doms v)) \<and> consistent_spec pz s)"

section \<open>Notions used in the proofs\<close>

text \<open>
  Names for the parts of one iteration: the arc that is popped, the queue without it, and
  the arcs that are put back after a revision of \<open>x\<close> against \<open>y\<close>.
\<close>

definition popped :: "(nat \<Rightarrow> nat) \<Rightarrow> nat \<Rightarrow> arc list \<Rightarrow> arc" where
  "popped sched i arcs = arcs ! (sched i mod length arcs)"

definition unpopped :: "(nat \<Rightarrow> nat) \<Rightarrow> nat \<Rightarrow> arc list \<Rightarrow> arc list" where
  "unpopped sched i arcs =
     take (sched i mod length arcs) arcs @ drop (Suc (sched i mod length arcs)) arcs"

definition requeued :: "crossword \<Rightarrow> variable \<Rightarrow> variable \<Rightarrow> arc list" where
  "requeued pz x y = map (\<lambda>z. (z, x)) (filter (\<lambda>z. z \<noteq> y) (neighbors pz x))"

text \<open>
  The invariant of the loop: every arc with a defined overlap that is not in the queue is
  arc consistent.
\<close>

definition arcs_consistent :: "crossword \<Rightarrow> domains \<Rightarrow> arc set \<Rightarrow> bool" where
  "arcs_consistent pz d Q =
     (\<forall>x \<in> set (variables pz). \<forall>y \<in> set (variables pz). x \<noteq> y \<longrightarrow>
        (\<forall>a b. overlaps pz x y = Some (a, b) \<longrightarrow> (x, y) \<in> Q \<or> arc_consistent d x y a b))"

text \<open>
  The states in which the search is entered: the assignment is a dictionary over variables
  of the puzzle whose words come from the node-consistent domains.
\<close>

definition search_state :: "crossword \<Rightarrow> domains \<Rightarrow> assignment \<Rightarrow> bool" where
  "search_state pz doms a =
     (wf_crossword pz \<and> node_consistent pz doms \<and> distinct (map fst a)
      \<and> fst ` set a \<subseteq> set (variables pz) \<and> (\<forall>(v, w) \<in> set a. w \<in> set (doms v)))"

section \<open>Example puzzles\<close>

text \<open>
  Two crossing slots of length 3: the second cell of the slot going down is the second
  cell of the slot going across. The word list has three words that fit and one that is
  too long.
\<close>

definition slot_down :: variable where
  "slot_down = Variable 0 1 DOWN 3"

definition slot_across :: variable where
  "slot_across = Variable 1 0 ACROSS 3"

definition cross_overlaps :: "variable \<Rightarrow> variable \<Rightarrow> (nat \<times> nat) option" where
  "cross_overlaps x y =
     (if x = slot_down \<and> y = slot_across then Some (1, 1)
      else if x = slot_across \<and> y = slot_down then Some (1, 1)
      else None)"

definition cross_puzzle :: crossword where
  "cross_puzzle =
     \<lparr>variables = [slot_down, slot_across],
      words = [''cat'', ''dog'', ''toe'', ''hats''],
      overlaps = cross_overlaps\<rparr>"

text \<open>
  The domains of the crossing puzzle after node consistency, and a puzzle with a single
  slot of length 3 for which the word list has no word of that length.
\<close>

definition lone_slot :: variable where
  "lone_slot = Variable 0 0 ACROSS 3"

definition lone_puzzle :: crossword where
  "lone_puzzle = \<lparr>variables = [lone_slot], words = [''ab''], overlaps = (\<lambda>x y. None)\<rparr>"

definition cross_domains :: domains where
  "cross_domains = enforce_node_consistency cross_puzzle (init_domains cross_puzzle)"

text \<open>
  The crossing puzzle with a word list of two words that cannot cross: neither has a
  partner for its second letter.
\<close>

definition clash_puzzle :: crossword where
  "clash_puzzle =
     \<lparr>variables = [slot_down, slot_across], words = [''cat'', ''dog''], overlaps = cross_overlaps\<rparr>"

text \<open>
  Domains of the crossing puzzle that are not node consistent: the domain of the slot going
  down holds the empty word.
\<close>

definition short_word_domains :: domains where
  "short_word_domains = (\<lambda>v. if v = slot_down then [[], ''dog'', ''toe''] else [''dog'', ''toe''])"

section \<open>Properties of node consistency\<close>

lemma remove_mismatched_filter:
  "remove_mismatched var it ws =
     filter (\<lambda>w. \<not> (w \<in> set it \<and> length w \<noteq> var_length var)) ws"
proof (induction it arbitrary: ws)
  case Nil
  then show ?case by simp
next
  case (Cons t it)
  show ?case
  proof (cases "var_length var \<noteq> length t")
    case True
    with Cons show ?thesis
      by (auto simp: removeAll_as_filter intro!: filter_cong)
  next
    case False
    with Cons show ?thesis
      by (auto intro!: filter_cong)
  qed
qed

lemma remove_mismatched_self:
  "remove_mismatched var ws ws = filter (\<lambda>w. length w = var_length var) ws"
  by (simp add: remove_mismatched_filter cong: filter_cong)

lemma fold_upd_other:
  "var \<notin> set vs \<Longrightarrow> fold (\<lambda>v d. d(v := g v (d v))) vs doms var = doms var"
  by (induction vs arbitrary: doms) auto

lemma fold_upd_member:
  assumes "var \<in> set vs" and idem: "\<And>ws. g var (g var ws) = g var ws"
  shows "fold (\<lambda>v d. d(v := g v (d v))) vs doms var = g var (doms var)"
  using assms(1)
proof (induction vs arbitrary: doms)
  case Nil
  then show ?case by simp
next
  case (Cons v vs)
  show ?case
  proof (cases "var \<in> set vs")
    case True
    from Cons.IH [OF True] show ?thesis
      by (cases "v = var") (simp_all add: idem)
  next
    case False
    with Cons.prems have v: "v = var" by simp
    have "fold (\<lambda>v d. d(v := g v (d v))) (v # vs) doms var
            = fold (\<lambda>v d. d(v := g v (d v))) vs (doms(v := g v (doms v))) var"
      by simp
    also have "\<dots> = (doms(v := g v (doms v))) var"
      by (rule fold_upd_other [OF False])
    finally show ?thesis
      unfolding v by (simp only: fun_upd_same)
  qed
qed

lemma enforce_node_consistency_member:
  "var \<in> set (variables pz) \<Longrightarrow>
   enforce_node_consistency pz doms var = filter (\<lambda>w. length w = var_length var) (doms var)"
  unfolding enforce_node_consistency_def
  by (subst fold_upd_member [where g = "\<lambda>v ws. remove_mismatched v ws ws"])
     (simp_all add: remove_mismatched_self)

lemma enforce_node_consistency_other:
  "var \<notin> set (variables pz) \<Longrightarrow> enforce_node_consistency pz doms var = doms var"
  unfolding enforce_node_consistency_def
  by (rule fold_upd_other [where g = "\<lambda>v ws. remove_mismatched v ws ws"])

section \<open>The loop of AC-3 as an invariant rule\<close>

lemma popped_in: "arcs \<noteq> [] \<Longrightarrow> popped sched i arcs \<in> set arcs"
  by (simp add: popped_def)

lemma set_unpopped:
  assumes "arcs \<noteq> []"
  shows "set (unpopped sched i arcs) \<subseteq> set arcs"
    and "set arcs \<subseteq> insert (popped sched i arcs) (set (unpopped sched i arcs))"
proof -
  let ?k = "sched i mod length arcs"
  from assms have k: "?k < length arcs" by simp
  have "arcs = take ?k arcs @ arcs ! ?k # drop (Suc ?k) arcs"
    using k by (rule id_take_nth_drop)
  then have "set arcs = set (take ?k arcs @ arcs ! ?k # drop (Suc ?k) arcs)"
    by (rule arg_cong)
  also have "\<dots> = set (take ?k arcs) \<union> {arcs ! ?k} \<union> set (drop (Suc ?k) arcs)"
    by simp
  finally have "set arcs = set (take ?k arcs) \<union> {arcs ! ?k} \<union> set (drop (Suc ?k) arcs)" .
  then show "set (unpopped sched i arcs) \<subseteq> set arcs"
    and "set arcs \<subseteq> insert (popped sched i arcs) (set (unpopped sched i arcs))"
    by (auto simp: unpopped_def popped_def)
qed

lemma ac3_loop_Nil: "ac3_loop pz sched i doms [] = Inr (True, doms)"
  by (subst ac3_loop.simps) simp

lemma ac3_loop_Cons:
  "arcs \<noteq> [] \<Longrightarrow>
   ac3_loop pz sched i doms arcs =
     (case revise pz doms (fst (popped sched i arcs)) (snd (popped sched i arcs)) of
        Inl e \<Rightarrow> Inl e
      | Inr r \<Rightarrow>
          if fst r then
            if snd r (fst (popped sched i arcs)) = [] then Inr (False, snd r)
            else ac3_loop pz sched (Suc i) (snd r)
                   (List.union (unpopped sched i arcs)
                      (requeued pz (fst (popped sched i arcs)) (snd (popped sched i arcs))))
          else ac3_loop pz sched (Suc i) (snd r) (unpopped sched i arcs))"
  unfolding popped_def unpopped_def requeued_def
  by (subst ac3_loop.simps) (simp add: Let_def cong: sum.case_cong if_cong)

lemma ac3_loop_rule:
  assumes "ac3_loop pz sched i doms arcs = Inr (b, d')"
    and "I doms (set arcs)"
    and "\<And>d Q x y Q'. I d Q \<Longrightarrow> (x, y) \<in> Q \<Longrightarrow> revise pz d x y = Inr (False, d) \<Longrightarrow>
                      Q' \<subseteq> Q \<Longrightarrow> Q \<subseteq> insert (x, y) Q' \<Longrightarrow> I d Q'"
    and "\<And>d Q x y d1 Q'. I d Q \<Longrightarrow> (x, y) \<in> Q \<Longrightarrow> revise pz d x y = Inr (True, d1) \<Longrightarrow>
                      d1 x \<noteq> [] \<Longrightarrow> Q' \<subseteq> Q \<Longrightarrow> Q \<subseteq> insert (x, y) Q' \<Longrightarrow>
                      I d1 (Q' \<union> set (requeued pz x y))"
    and "\<And>d. I d {} \<Longrightarrow> P True d"
    and "\<And>d Q x y d1. I d Q \<Longrightarrow> (x, y) \<in> Q \<Longrightarrow> revise pz d x y = Inr (True, d1) \<Longrightarrow>
                      d1 x = [] \<Longrightarrow> P False d1"
  shows "P b d'"
  using assms
proof (induction pz sched i doms arcs rule: ac3_loop.induct)
  case (1 pz sched i doms arcs)
  note res = 1(3) and inv = 1(4) and unrevised = 1(5) and revised = 1(6)
    and finish = 1(7) and failed = 1(8)
  show ?case
  proof (cases "arcs = []")
    case True
    with res inv finish show ?thesis
      by (simp add: ac3_loop_Nil)
  next
    case False
    define x where "x = fst (popped sched i arcs)"
    define y where "y = snd (popped sched i arcs)"
    have xy: "(x, y) \<in> set arcs"
      using popped_in [OF False, of sched i] by (simp add: x_def y_def)
    note sub = set_unpopped [OF False, of sched i]
    have sub2: "set arcs \<subseteq> insert (x, y) (set (unpopped sched i arcs))"
      using sub(2) by (simp add: x_def y_def)
    from res False obtain r where r: "revise pz doms x y = Inr r"
      by (auto simp: ac3_loop_Cons x_def y_def split: sum.splits)
    show ?thesis
    proof (cases "fst r")
      case rev: True
      then have r': "revise pz doms x y = Inr (True, snd r)"
        using r by (cases r) simp
      show ?thesis
      proof (cases "snd r x = []")
        case True
        with res False r rev have "Inr (False, snd r) = Inr (b, d')"
          by (simp add: ac3_loop_Cons x_def y_def)
        with failed [OF inv xy r' True] show ?thesis
          by simp
      next
        case nonempty: False
        with res False r rev
        have rec: "ac3_loop pz sched (Suc i) (snd r)
                     (List.union (unpopped sched i arcs) (requeued pz x y)) = Inr (b, d')"
          by (simp add: ac3_loop_Cons x_def y_def)
        have inv': "I (snd r) (set (List.union (unpopped sched i arcs) (requeued pz x y)))"
          using revised [OF inv xy r' nonempty sub(1) sub2] by simp
        have "length arcs \<noteq> 0" "fst r" "length (snd r x) \<noteq> 0"
          using False rev nonempty by simp_all
        from 1(1) [OF this(1) refl refl refl refl
            r [unfolded x_def y_def popped_def] this(2) this(3) [unfolded x_def popped_def]
            rec [unfolded x_def y_def popped_def unpopped_def requeued_def]
            inv' [unfolded x_def y_def popped_def unpopped_def requeued_def]
            unrevised revised finish failed]
        show ?thesis .
      qed
    next
      case unrev: False
      then have r': "revise pz doms x y = Inr (False, snd r)"
        using r by (cases r) simp
      from revise_False [OF r'] have same: "snd r = doms" .
      from res False r unrev
      have rec: "ac3_loop pz sched (Suc i) (snd r) (unpopped sched i arcs) = Inr (b, d')"
        by (simp add: ac3_loop_Cons x_def y_def)
      have inv': "I (snd r) (set (unpopped sched i arcs))"
        using unrevised [OF inv xy r' [unfolded same] sub(1) sub2] same by simp
      have "length arcs \<noteq> 0"
        using False by simp
      from 1(2) [OF this refl refl refl refl
          r [unfolded x_def y_def popped_def] unrev
          rec [unfolded unpopped_def] inv' [unfolded unpopped_def]
          unrevised revised finish failed]
      show ?thesis .
    qed
  qed
qed

section \<open>Properties of \<open>revise\<close>\<close>

lemma wf_crossword_case:
  assumes "wf_crossword pz" "x \<in> set (variables pz)" "y \<in> set (variables pz)" "x \<noteq> y"
  shows "case overlaps pz x y of
           None \<Rightarrow> overlaps pz y x = None
         | Some ov \<Rightarrow> overlaps pz y x = Some (snd ov, fst ov)
                       \<and> fst ov < var_length x \<and> snd ov < var_length y"
  using assms unfolding wf_crossword_def by blast

lemma wf_crossword_Some:
  assumes "wf_crossword pz" "x \<in> set (variables pz)" "y \<in> set (variables pz)" "x \<noteq> y"
    and "overlaps pz x y = Some (a, b)"
  shows "overlaps pz y x = Some (b, a)" "a < var_length x" "b < var_length y"
  using wf_crossword_case [OF assms(1-4)] assms(5) by simp_all

lemma wf_crossword_None:
  assumes "wf_crossword pz" "x \<in> set (variables pz)" "y \<in> set (variables pz)" "x \<noteq> y"
    and "overlaps pz x y = None"
  shows "overlaps pz y x = None"
  using wf_crossword_case [OF assms(1-4)] assms(5) by simp

lemma compare_ywords_returns:
  "x < length w \<Longrightarrow> \<forall>v \<in> set ys. y < length v \<Longrightarrow> \<exists>b. compare_ywords x y w ys = Inr b"
  by (induction ys) auto

lemma compare_xwords_returns:
  "\<forall>w \<in> set it. x < length w \<Longrightarrow> \<forall>v \<in> set ys. y < length v \<Longrightarrow>
   \<exists>r. compare_xwords x y it ys xs = Inr r"
proof (induction it arbitrary: xs)
  case Nil
  then show ?case by simp
next
  case (Cons w it)
  then obtain b where "compare_ywords x y w ys = Inr b"
    using compare_ywords_returns [of x w ys y] by auto
  with Cons show ?case
    by auto
qed

lemma compare_domain_returns:
  "\<forall>w \<in> set xwords. x < length w \<Longrightarrow> \<forall>v \<in> set ywords. y < length v \<Longrightarrow>
   \<exists>r. compare_domain x y xwords ywords = Inr r"
  unfolding compare_domain_def by (rule compare_xwords_returns)

lemma compare_xwords_each:
  "compare_xwords x y it ys xs = Inr r \<Longrightarrow> w \<in> set it \<Longrightarrow> x \<le> length w \<Longrightarrow>
   \<exists>b. compare_ywords x y w ys = Inr b"
proof (induction it arbitrary: xs)
  case Nil
  then show ?case by simp
next
  case (Cons t it)
  show ?case
  proof (cases "w = t")
    case True
    with Cons.prems show ?thesis
      by (auto split: sum.splits if_splits)
  next
    case False
    with Cons.prems have "w \<in> set it" by simp
    moreover from Cons.prems(1) obtain xs' where "compare_xwords x y it ys xs' = Inr r"
      by (auto split: sum.splits if_splits)
    ultimately show ?thesis
      using Cons.IH Cons.prems(3) by blast
  qed
qed

lemma filter_same_length: "length (filter P xs) = length xs \<Longrightarrow> filter P xs = xs"
proof (induction xs)
  case Nil
  then show ?case by simp
next
  case (Cons x xs)
  show ?case
  proof (cases "P x")
    case True
    with Cons show ?thesis by simp
  next
    case False
    with Cons.prems have "length (filter P xs) = Suc (length xs)" by simp
    with length_filter_le [of P xs] show ?thesis by simp
  qed
qed

text \<open>What a call of \<open>revise\<close> that returns leaves in the domain of \<open>x\<close>.\<close>

lemma revise_Inr:
  assumes "revise pz doms x y = Inr (rv, d)"
  shows "overlaps_at pz x y = Inr None \<and> \<not> rv \<and> d = doms
       \<or> (\<exists>a b. overlaps_at pz x y = Inr (Some (a, b))
            \<and> compare_domain a b (doms x) (doms y) = Inr (d x)
            \<and> d = doms(x := d x) \<and> rv = (length (d x) \<noteq> length (doms x)))"
proof (cases "overlaps_at pz x y")
  case (Inl e)
  with assms show ?thesis
    by (simp add: revise_def)
next
  case (Inr ov)
  show ?thesis
  proof (cases ov)
    case None
    with assms Inr show ?thesis
      by (auto simp: revise_def)
  next
    case (Some ab)
    with assms Inr obtain r where r: "compare_domain (fst ab) (snd ab) (doms x) (doms y) = Inr r"
      by (cases "compare_domain (fst ab) (snd ab) (doms x) (doms y)") (auto simp: revise_def)
    note f = compare_domain_filter [OF r]
    have rv: "rv = (length r \<noteq> length (doms x))"
      and d: "d = (if length r \<noteq> length (doms x) then doms(x := r) else doms)"
      using assms Inr Some r by (auto simp: revise_def Let_def)
    have dx: "d x = r"
    proof (cases "length r \<noteq> length (doms x)")
      case True
      with d show ?thesis by simp
    next
      case False
      then have "r = doms x"
        unfolding f by (simp add: filter_same_length)
      with d False show ?thesis by simp
    qed
    have "d = doms(x := d x)"
      using d dx by (auto simp: fun_eq_iff)
    with Inr Some r rv dx show ?thesis
      by (cases ab) auto
  qed
qed

lemma revise_other: "revise pz doms x y = Inr (rv, d) \<Longrightarrow> v \<noteq> x \<Longrightarrow> d v = doms v"
  by (drule revise_Inr) (metis fun_upd_other)

lemma revise_subset: "revise pz doms x y = Inr (rv, d) \<Longrightarrow> set (d v) \<subseteq> set (doms v)"
proof -
  assume r: "revise pz doms x y = Inr (rv, d)"
  show ?thesis
  proof (cases "v = x")
    case False
    with revise_other [OF r] show ?thesis by simp
  next
    case True
    from revise_Inr [OF r] show ?thesis
    proof
      assume "overlaps_at pz x y = Inr None \<and> \<not> rv \<and> d = doms"
      then show ?thesis by simp
    next
      assume "\<exists>a b. overlaps_at pz x y = Inr (Some (a, b))
            \<and> compare_domain a b (doms x) (doms y) = Inr (d x)
            \<and> d = doms(x := d x) \<and> rv = (length (d x) \<noteq> length (doms x))"
      then obtain a b where "compare_domain a b (doms x) (doms y) = Inr (d x)"
        by blast
      from compare_domain_filter [OF this] have "set (d x) \<subseteq> set (doms x)"
        by (metis filter_is_subset)
      with True show ?thesis by simp
    qed
  qed
qed

lemma overlaps_at_Inr:
  "overlaps_at pz x y = Inr ov \<longleftrightarrow>
   x \<in> set (variables pz) \<and> y \<in> set (variables pz) \<and> x \<noteq> y \<and> overlaps pz x y = ov"
  by (auto simp: overlaps_at_def)

lemma revise_arc_consistent:
  assumes r: "revise pz doms x y = Inr (rv, d)"
    and ov: "overlaps pz x y = Some (a, b)"
    and long: "\<forall>w \<in> set (doms x). a < length w"
  shows "arc_consistent d x y a b"
proof -
  from revise_Inr [OF r] ov obtain cd: "compare_domain a b (doms x) (doms y) = Inr (d x)"
    and xy: "x \<noteq> y"
    by (auto simp: overlaps_at_Inr)
  from revise_other [OF r, of y] xy have dy: "d y = doms y"
    by simp
  note f = compare_domain_filter [OF cd]
  show ?thesis
    unfolding arc_consistent_def
  proof
    fix w assume w: "w \<in> set (d x)"
    then have wx: "w \<in> set (doms x)" and keep: "\<not> (a \<le> length w \<and> compare_ywords a b w (doms y) = Inr False)"
      by (subst (asm) f, simp)+
    from long wx have a: "a < length w" by simp
    from cd wx a obtain t where "compare_ywords a b w (doms y) = Inr t"
      unfolding compare_domain_def using compare_xwords_each [of a b "doms x" "doms y" "doms x" "d x" w]
      by auto
    with keep a have "compare_ywords a b w (doms y) = Inr True"
      by (cases t) auto
    from compare_ywords_True [OF this] dy
    show "\<exists>v \<in> set (d y). v \<noteq> w \<and> a < length w \<and> b < length v \<and> w ! a = v ! b"
      by simp
  qed
qed

lemma revise_keeps_supported:
  assumes r: "revise pz doms x y = Inr (rv, d)"
    and ov: "overlaps pz x y = Some (a, b)"
    and w: "w \<in> set (doms x)" and v: "v \<in> set (doms y)"
    and sup: "v \<noteq> w" "b < length v" "a < length w" "w ! a = v ! b"
  shows "w \<in> set (d x)"
proof -
  from revise_Inr [OF r] ov have cd: "compare_domain a b (doms x) (doms y) = Inr (d x)"
    by (auto simp: overlaps_at_Inr)
  have "compare_ywords a b w (doms y) \<noteq> Inr False"
  proof
    assume "compare_ywords a b w (doms y) = Inr False"
    from compare_ywords_False [OF this] v sup show False
      by auto
  qed
  with w show ?thesis
    by (subst compare_domain_filter [OF cd]) simp
qed

lemma revise_returns:
  assumes "node_consistent pz doms" and "wf_crossword pz"
  shows "revise pz doms x y \<noteq> Inl IndexError \<and> revise pz doms x y \<noteq> Inl TypeError"
    and "x \<in> set (variables pz) \<Longrightarrow> y \<in> set (variables pz) \<Longrightarrow> x \<noteq> y \<Longrightarrow>
         \<exists>r. revise pz doms x y = Inr r"
proof -
  have main: "\<exists>r. revise pz doms x y = Inr r"
    if xy: "x \<in> set (variables pz)" "y \<in> set (variables pz)" "x \<noteq> y"
  proof (cases "overlaps pz x y")
    case None
    with xy have "revise pz doms x y = Inr (False, doms)"
      by (simp add: revise_def overlaps_at_def)
    then show ?thesis ..
  next
    case (Some ov)
    obtain a b where ab: "ov = (a, b)" by (cases ov)
    from wf_crossword_Some [OF assms(2) xy Some [unfolded ab]] ab
    have "fst ov < var_length x" "snd ov < var_length y"
      by simp_all
    with assms(1) xy have "\<forall>w \<in> set (doms x). fst ov < length w" "\<forall>v \<in> set (doms y). snd ov < length v"
      by (auto simp: node_consistent_def)
    from compare_domain_returns [OF this] obtain r
      where "compare_domain (fst ov) (snd ov) (doms x) (doms y) = Inr r" ..
    with Some xy
    have "revise pz doms x y = Inr (length r \<noteq> length (doms x),
            if length r \<noteq> length (doms x) then doms(x := r) else doms)"
      by (simp add: revise_def overlaps_at_def Let_def)
    then show ?thesis ..
  qed
  then show "x \<in> set (variables pz) \<Longrightarrow> y \<in> set (variables pz) \<Longrightarrow> x \<noteq> y \<Longrightarrow>
         \<exists>r. revise pz doms x y = Inr r" .
  show "revise pz doms x y \<noteq> Inl IndexError \<and> revise pz doms x y \<noteq> Inl TypeError"
  proof (cases "x \<in> set (variables pz) \<and> y \<in> set (variables pz) \<and> x \<noteq> y")
    case True
    with main show ?thesis by auto
  next
    case False
    then have "revise pz doms x y = Inl KeyError"
      by (auto simp: revise_def overlaps_at_def)
    then show ?thesis by simp
  qed
qed

section \<open>Properties of the loop of AC-3\<close>

lemma ac3_loop_returns_rule:
  assumes "I doms (set arcs)"
    and "\<And>d Q x y Q'. I d Q \<Longrightarrow> (x, y) \<in> Q \<Longrightarrow> revise pz d x y = Inr (False, d) \<Longrightarrow>
                      Q' \<subseteq> Q \<Longrightarrow> Q \<subseteq> insert (x, y) Q' \<Longrightarrow> I d Q'"
    and "\<And>d Q x y d1 Q'. I d Q \<Longrightarrow> (x, y) \<in> Q \<Longrightarrow> revise pz d x y = Inr (True, d1) \<Longrightarrow>
                      d1 x \<noteq> [] \<Longrightarrow> Q' \<subseteq> Q \<Longrightarrow> Q \<subseteq> insert (x, y) Q' \<Longrightarrow>
                      I d1 (Q' \<union> set (requeued pz x y))"
    and "\<And>d Q x y. I d Q \<Longrightarrow> (x, y) \<in> Q \<Longrightarrow> \<exists>r. revise pz d x y = Inr r"
  shows "\<exists>b d'. ac3_loop pz sched i doms arcs = Inr (b, d')"
  using assms
proof (induction pz sched i doms arcs rule: ac3_loop.induct)
  case (1 pz sched i doms arcs)
  note inv = 1(3) and unrevised = 1(4) and revised = 1(5) and returns = 1(6)
  show ?case
  proof (cases "arcs = []")
    case True
    then have "ac3_loop pz sched i doms arcs = Inr (True, doms)"
      by (simp add: ac3_loop_Nil)
    then show ?thesis by blast
  next
    case False
    define x where "x = fst (popped sched i arcs)"
    define y where "y = snd (popped sched i arcs)"
    have xy: "(x, y) \<in> set arcs"
      using popped_in [OF False, of sched i] by (simp add: x_def y_def)
    note sub = set_unpopped [OF False, of sched i]
    have sub2: "set arcs \<subseteq> insert (x, y) (set (unpopped sched i arcs))"
      using sub(2) by (simp add: x_def y_def)
    from returns [OF inv xy] obtain r where r: "revise pz doms x y = Inr r" ..
    show ?thesis
    proof (cases "fst r")
      case rv: True
      then have r': "revise pz doms x y = Inr (True, snd r)"
        using r by (cases r) simp
      show ?thesis
      proof (cases "snd r x = []")
        case True
        with False r rv have "ac3_loop pz sched i doms arcs = Inr (False, snd r)"
          by (simp add: ac3_loop_Cons x_def y_def)
        then show ?thesis by blast
      next
        case nonempty: False
        with False r rv
        have unf: "ac3_loop pz sched i doms arcs = ac3_loop pz sched (Suc i) (snd r)
                     (List.union (unpopped sched i arcs) (requeued pz x y))"
          by (simp add: ac3_loop_Cons x_def y_def)
        have inv': "I (snd r) (set (List.union (unpopped sched i arcs) (requeued pz x y)))"
          using revised [OF inv xy r' nonempty sub(1) sub2] by simp
        have "length arcs \<noteq> 0" "fst r" "length (snd r x) \<noteq> 0"
          using False rv nonempty by simp_all
        from 1(1) [OF this(1) refl refl refl refl
            r [unfolded x_def y_def popped_def] this(2) this(3) [unfolded x_def popped_def]
            inv' [unfolded x_def y_def popped_def unpopped_def requeued_def]
            unrevised revised returns]
        show ?thesis
          unfolding unf x_def y_def popped_def unpopped_def requeued_def .
      qed
    next
      case unrev: False
      then have r': "revise pz doms x y = Inr (False, snd r)"
        using r by (cases r) simp
      from revise_False [OF r'] have same: "snd r = doms" .
      from False r unrev
      have unf: "ac3_loop pz sched i doms arcs = ac3_loop pz sched (Suc i) (snd r) (unpopped sched i arcs)"
        by (simp add: ac3_loop_Cons x_def y_def)
      have inv': "I (snd r) (set (unpopped sched i arcs))"
        using unrevised [OF inv xy r' [unfolded same] sub(1) sub2] same by simp
      have "length arcs \<noteq> 0"
        using False by simp
      from 1(2) [OF this refl refl refl refl
          r [unfolded x_def y_def popped_def] unrev
          inv' [unfolded unpopped_def]
          unrevised revised returns]
      show ?thesis
        unfolding unf unpopped_def .
    qed
  qed
qed

lemma ac3_loop_subset:
  assumes "ac3_loop pz sched i doms arcs = Inr (b, d')"
  shows "set (d' v) \<subseteq> set (doms v)"
proof (rule ac3_loop_rule [OF assms, where I = "\<lambda>d Q. \<forall>v. set (d v) \<subseteq> set (doms v)"
      and P = "\<lambda>b d. set (d v) \<subseteq> set (doms v)"])
  show "\<forall>v. set (doms v) \<subseteq> set (doms v)" by simp
next
  fix d Q x y d1 Q'
  assume "\<forall>v. set (d v) \<subseteq> set (doms v)" "revise pz d x y = Inr (True, d1)"
  then show "\<forall>v. set (d1 v) \<subseteq> set (doms v)"
    using revise_subset by (meson subset_trans)
next
  fix d Q x y d1
  assume "\<forall>v. set (d v) \<subseteq> set (doms v)" "revise pz d x y = Inr (True, d1)"
  then show "set (d1 v) \<subseteq> set (doms v)"
    using revise_subset by (meson subset_trans)
qed simp_all

lemma ac3_loop_emptied:
  assumes "ac3_loop pz sched i doms arcs = Inr (b, d')" and "doms v \<noteq> []" and "d' v = []"
  shows "\<not> b"
proof -
  have "b \<longrightarrow> (\<forall>v. d' v = [] \<longrightarrow> doms v = [])"
  proof (rule ac3_loop_rule [OF assms(1), where I = "\<lambda>d Q. \<forall>v. d v = [] \<longrightarrow> doms v = []"
      and P = "\<lambda>b d. b \<longrightarrow> (\<forall>v. d v = [] \<longrightarrow> doms v = [])"])
    fix d Q x y d1 Q'
    assume "\<forall>v. d v = [] \<longrightarrow> doms v = []" "revise pz d x y = Inr (True, d1)" "d1 x \<noteq> []"
    then show "\<forall>v. d1 v = [] \<longrightarrow> doms v = []"
      using revise_other by metis
  qed simp_all
  with assms(2,3) show ?thesis by blast
qed

lemma ac3_loop_False:
  assumes "ac3_loop pz sched i doms arcs = Inr (False, d')"
  shows "\<exists>x \<in> set (variables pz). d' x = []"
proof (rule ac3_loop_rule [OF assms, where I = "\<lambda>d Q. True"
      and P = "\<lambda>b d. \<not> b \<longrightarrow> (\<exists>x \<in> set (variables pz). d x = [])", simplified])
  fix d x y d1
  assume "revise pz d x y = Inr (True, d1)" "d1 x = []"
  with revise_True [of pz d x y d1] show "\<exists>x \<in> set (variables pz). d1 x = []"
    by blast
qed

lemma revise_node_consistent:
  "revise pz doms x y = Inr (rv, d) \<Longrightarrow> node_consistent pz doms \<Longrightarrow> node_consistent pz d"
  using revise_subset [of pz doms x y rv d] unfolding node_consistent_def by blast

lemma ac3_loop_node_consistent:
  assumes "ac3_loop pz sched i doms arcs = Inr (b, d')" and "node_consistent pz doms"
  shows "node_consistent pz d'"
  using ac3_loop_subset [OF assms(1)] assms(2) unfolding node_consistent_def by blast

section \<open>Arc consistency as the fixpoint of the loop\<close>

lemma set_neighbors:
  "set (neighbors pz x) = {v \<in> set (variables pz). v \<noteq> x \<and> overlaps pz v x \<noteq> None}"
  by (auto simp: neighbors_def)

lemma set_requeued:
  "set (requeued pz x y) = {(z, x) | z. z \<in> set (neighbors pz x) \<and> z \<noteq> y}"
  by (auto simp: requeued_def)

lemma set_fold_union:
  "set (fold (\<lambda>v arcs. List.union arcs (f v)) vs acc) = set acc \<union> (\<Union>v \<in> set vs. set (f v))"
  by (induction vs arbitrary: acc) auto

lemma set_all_arcs:
  "set (all_arcs pz) = {(x, y). x \<in> set (variables pz) \<and> y \<in> set (neighbors pz x)}"
  by (auto simp: all_arcs_def set_fold_union)

lemma arc_consistent_mono:
  "arc_consistent d u v a b \<Longrightarrow> set (d1 u) \<subseteq> set (d u) \<Longrightarrow> d1 v = d v \<Longrightarrow>
   arc_consistent d1 u v a b"
  unfolding arc_consistent_def by auto

lemma node_consistent_long:
  assumes "node_consistent pz d" "wf_crossword pz"
    and "x \<in> set (variables pz)" "y \<in> set (variables pz)" "x \<noteq> y"
    and "overlaps pz x y = Some (a, b)"
  shows "\<forall>w \<in> set (d x). a < length w" "\<forall>v \<in> set (d y). b < length v"
  using wf_crossword_Some [OF assms(2-6)] assms(1,3,4)
  by (auto simp: node_consistent_def)

lemma arcs_consistentI:
  assumes "\<And>u v a b. u \<in> set (variables pz) \<Longrightarrow> v \<in> set (variables pz) \<Longrightarrow> u \<noteq> v \<Longrightarrow>
             overlaps pz u v = Some (a, b) \<Longrightarrow> (u, v) \<notin> Q \<Longrightarrow> arc_consistent d u v a b"
  shows "arcs_consistent pz d Q"
  unfolding arcs_consistent_def using assms by blast

lemma arcs_consistentD:
  assumes "arcs_consistent pz d Q"
    and "u \<in> set (variables pz)" "v \<in> set (variables pz)" "u \<noteq> v"
    and "overlaps pz u v = Some (a, b)" "(u, v) \<notin> Q"
  shows "arc_consistent d u v a b"
  using assms unfolding arcs_consistent_def by blast

lemma arcs_consistent_unrevised:
  assumes inv: "arcs_consistent pz d Q" and nc: "node_consistent pz d" and wf: "wf_crossword pz"
    and r: "revise pz d x y = Inr (False, d)"
    and sub: "Q \<subseteq> insert (x, y) Q'"
  shows "arcs_consistent pz d Q'"
proof (rule arcs_consistentI)
  fix u v a b
  assume uv: "u \<in> set (variables pz)" "v \<in> set (variables pz)" "u \<noteq> v"
    and ov: "overlaps pz u v = Some (a, b)" and notin: "(u, v) \<notin> Q'"
  show "arc_consistent d u v a b"
  proof (cases "(u, v) = (x, y)")
    case True
    with r ov node_consistent_long(1) [OF nc wf uv ov] show ?thesis
      using revise_arc_consistent [of pz d x y False d a b] by simp
  next
    case False
    with notin sub have "(u, v) \<notin> Q" by blast
    from arcs_consistentD [OF inv uv ov this] show ?thesis .
  qed
qed

lemma arcs_consistent_revised:
  assumes inv: "arcs_consistent pz d Q" and nc: "node_consistent pz d" and wf: "wf_crossword pz"
    and r: "revise pz d x y = Inr (True, d1)"
    and sub: "Q \<subseteq> insert (x, y) Q'"
  shows "arcs_consistent pz d1 (Q' \<union> set (requeued pz x y))"
proof (rule arcs_consistentI)
  fix u v a b
  assume uv: "u \<in> set (variables pz)" "v \<in> set (variables pz)" "u \<noteq> v"
    and ov: "overlaps pz u v = Some (a, b)" and notin: "(u, v) \<notin> Q' \<union> set (requeued pz x y)"
  from revise_True [OF r] have xy: "x \<in> set (variables pz)" "y \<in> set (variables pz)" "x \<noteq> y"
    by simp_all
  note other = revise_other [OF r]
  note subset = revise_subset [OF r]
  show "arc_consistent d1 u v a b"
  proof (cases "(u, v) = (x, y)")
    case True
    with r ov node_consistent_long(1) [OF nc wf uv ov] show ?thesis
      using revise_arc_consistent [of pz d x y True d1 a b] by simp
  next
    case False
    with notin sub have old: "(u, v) \<notin> Q" by blast
    note cons = arcs_consistentD [OF inv uv ov old]
    show ?thesis
    proof (cases "v = x")
      case vx: True
      with uv ov have "u \<in> set (neighbors pz x)"
        by (simp add: set_neighbors)
      with notin vx have uy: "u = y"
        by (auto simp: set_requeued)
      from wf_crossword_Some(1) [OF wf uv ov] uy vx have ov': "overlaps pz x y = Some (b, a)"
        by simp
      have dy: "d1 y = d y"
        using other [of y] xy by simp
      show ?thesis
        unfolding arc_consistent_def vx uy dy
      proof
        fix w assume w: "w \<in> set (d y)"
        with cons uy vx obtain t where t: "t \<in> set (d x)" "t \<noteq> w" "a < length w" "b < length t" "w ! a = t ! b"
          unfolding arc_consistent_def by blast
        from revise_keeps_supported [OF r ov' t(1) w] t have "t \<in> set (d1 x)"
          by simp
        with t show "\<exists>v \<in> set (d1 x). v \<noteq> w \<and> a < length w \<and> b < length v \<and> w ! a = v ! b"
          by blast
      qed
    next
      case False
      with other have "d1 v = d v" by simp
      with cons subset [of u] show ?thesis
        by (rule arc_consistent_mono)
    qed
  qed
qed

lemma ac3_loop_arc_consistent:
  assumes res: "ac3_loop pz sched i doms arcs = Inr (True, d')"
    and wf: "wf_crossword pz" and nc: "node_consistent pz doms"
    and init: "arcs_consistent pz doms (set arcs)"
  shows "arcs_consistent pz d' {}"
proof -
  have "True \<longrightarrow> arcs_consistent pz d' {}"
  proof (rule ac3_loop_rule [OF res, where I = "\<lambda>d Q. node_consistent pz d \<and> arcs_consistent pz d Q"
        and P = "\<lambda>b d. b \<longrightarrow> arcs_consistent pz d {}"])
    show "node_consistent pz doms \<and> arcs_consistent pz doms (set arcs)"
      using nc init by simp
  next
    fix d Q x y Q'
    assume inv: "node_consistent pz d \<and> arcs_consistent pz d Q"
      and r: "revise pz d x y = Inr (False, d)" and sub: "Q \<subseteq> insert (x, y) Q'"
    from inv have n: "node_consistent pz d" and a: "arcs_consistent pz d Q"
      by simp_all
    from arcs_consistent_unrevised [OF a n wf r sub] n
    show "node_consistent pz d \<and> arcs_consistent pz d Q'"
      by simp
  next
    fix d Q x y d1 Q'
    assume inv: "node_consistent pz d \<and> arcs_consistent pz d Q"
      and r: "revise pz d x y = Inr (True, d1)" and sub: "Q \<subseteq> insert (x, y) Q'"
    from inv have n: "node_consistent pz d" and a: "arcs_consistent pz d Q"
      by simp_all
    from arcs_consistent_revised [OF a n wf r sub] revise_node_consistent [OF r n]
    show "node_consistent pz d1 \<and> arcs_consistent pz d1 (Q' \<union> set (requeued pz x y))"
      by simp
  next
    fix d
    assume "node_consistent pz d \<and> arcs_consistent pz d {}"
    then show "True \<longrightarrow> arcs_consistent pz d {}"
      by simp
  next
    fix d1 :: domains
    show "False \<longrightarrow> arcs_consistent pz d1 {}"
      by simp
  qed
  then show ?thesis
    by simp
qed

lemma arcs_consistent_all_arcs:
  assumes wf: "wf_crossword pz"
  shows "arcs_consistent pz doms (set (all_arcs pz))"
proof (rule arcs_consistentI)
  fix u v a b
  assume uv: "u \<in> set (variables pz)" "v \<in> set (variables pz)" "u \<noteq> v"
    and ov: "overlaps pz u v = Some (a, b)" and notin: "(u, v) \<notin> set (all_arcs pz)"
  from wf_crossword_Some(1) [OF wf uv ov] uv have "v \<in> set (neighbors pz u)"
    by (simp add: set_neighbors)
  with uv notin show "arc_consistent doms u v a b"
    by (simp add: set_all_arcs)
qed

lemma ac3_loop_returns:
  assumes wf: "wf_crossword pz" and nc: "node_consistent pz doms"
    and arcs: "\<forall>(x, y) \<in> set arcs. x \<in> set (variables pz) \<and> y \<in> set (variables pz) \<and> x \<noteq> y"
  shows "\<exists>b d'. ac3_loop pz sched i doms arcs = Inr (b, d')"
proof (rule ac3_loop_returns_rule [where I = "\<lambda>d Q. node_consistent pz d
          \<and> (\<forall>(x, y) \<in> Q. x \<in> set (variables pz) \<and> y \<in> set (variables pz) \<and> x \<noteq> y)"])
  show "node_consistent pz doms
        \<and> (\<forall>(x, y) \<in> set arcs. x \<in> set (variables pz) \<and> y \<in> set (variables pz) \<and> x \<noteq> y)"
    using nc arcs by simp
next
  fix d Q x y Q'
  assume "node_consistent pz d
        \<and> (\<forall>(x, y) \<in> Q. x \<in> set (variables pz) \<and> y \<in> set (variables pz) \<and> x \<noteq> y)" "Q' \<subseteq> Q"
  then show "node_consistent pz d
        \<and> (\<forall>(x, y) \<in> Q'. x \<in> set (variables pz) \<and> y \<in> set (variables pz) \<and> x \<noteq> y)"
    by blast
next
  fix d Q x y d1 Q'
  assume inv: "node_consistent pz d
        \<and> (\<forall>(x, y) \<in> Q. x \<in> set (variables pz) \<and> y \<in> set (variables pz) \<and> x \<noteq> y)"
    and r: "revise pz d x y = Inr (True, d1)" and sub: "Q' \<subseteq> Q"
  from revise_True [OF r] have x: "x \<in> set (variables pz)" by simp
  have "\<forall>(z, x') \<in> set (requeued pz x y). z \<in> set (variables pz) \<and> x' \<in> set (variables pz) \<and> z \<noteq> x'"
    using x by (auto simp: set_requeued set_neighbors)
  with inv sub revise_node_consistent [OF r]
  show "node_consistent pz d1
        \<and> (\<forall>(x, y) \<in> Q' \<union> set (requeued pz x y). x \<in> set (variables pz) \<and> y \<in> set (variables pz) \<and> x \<noteq> y)"
    by blast
next
  fix d Q x y
  assume "node_consistent pz d
        \<and> (\<forall>(x, y) \<in> Q. x \<in> set (variables pz) \<and> y \<in> set (variables pz) \<and> x \<noteq> y)" "(x, y) \<in> Q"
  then have n: "node_consistent pz d"
    and xy: "x \<in> set (variables pz)" "y \<in> set (variables pz)" "x \<noteq> y"
    by auto
  from revise_returns(2) [OF n wf xy] show "\<exists>r. revise pz d x y = Inr r" .
qed

lemma all_arcs_variables:
  "\<forall>(x, y) \<in> set (all_arcs pz). x \<in> set (variables pz) \<and> y \<in> set (variables pz) \<and> x \<noteq> y"
  by (auto simp: set_all_arcs set_neighbors)

section \<open>Properties of the pruning as a whole\<close>

lemma ac3_subset:
  "ac3 pz sched doms arcs = Inr (ok, d) \<Longrightarrow> set (d v) \<subseteq> set (doms v)"
  unfolding ac3_def by (auto split: if_splits dest: ac3_loop_subset)

lemma enforce_node_consistency_subset:
  "set (enforce_node_consistency pz doms v) \<subseteq> set (doms v)"
  by (cases "v \<in> set (variables pz)")
     (simp_all add: enforce_node_consistency_member enforce_node_consistency_other)

lemma enforce_node_consistency_node_consistent:
  "node_consistent pz (enforce_node_consistency pz doms)"
  by (simp add: node_consistent_def enforce_node_consistency_member)

lemma solve_Inr:
  assumes "solve pz sched doms = Inr (res, d, n)"
  shows "\<exists>ok a. ac3 pz sched (enforce_node_consistency pz doms) None = Inr (ok, d)
            \<and> backtrack pz d [] 0 = Inr (res, a, n)"
proof -
  from assms obtain r where r: "ac3 pz sched (enforce_node_consistency pz doms) None = Inr r"
    by (cases "ac3 pz sched (enforce_node_consistency pz doms) None") (simp_all add: solve_def)
  with assms obtain b where b: "backtrack pz (snd r) [] 0 = Inr b"
    by (cases "backtrack pz (snd r) [] 0") (simp_all add: solve_def)
  from assms r b have "res = fst b" "d = snd r" "n = snd (snd b)"
    by (simp_all add: solve_def)
  with r b show ?thesis
    by (cases r, cases b) auto
qed

section \<open>Soundness of the search\<close>

lemma backtrack_result:
  assumes "backtrack pz doms a calls = Inr (res, a', calls')"
  shows "res = None \<longrightarrow> a' = a" and "\<forall>r. res = Some r \<longrightarrow> r = a' \<and> (a \<noteq> [] \<longrightarrow> r \<noteq> [])"
  using backtrack_partial(1) [OF _ assms] backtrack_total by auto

lemma backtrack_loop_result:
  assumes "backtrack_loop pz doms var vals a calls = Inr (res, a', calls')" and "var \<notin> fst ` set a"
  shows "res = None \<longrightarrow> a' = a" and "\<forall>r. res = Some r \<longrightarrow> r = a' \<and> r \<noteq> []"
  using backtrack_partial(2) [OF _ assms(2,1)] backtrack_total by auto

text \<open>Soundness of the search\<close>

lemma backtrack_sound:
  "consistent pz a = Inr True \<Longrightarrow> backtrack pz doms a calls = Inr (Some r, a', calls') \<Longrightarrow>
     assignment_complete pz r \<and> consistent pz r = Inr True"
  "backtrack_loop pz doms var vals a calls = Inr (Some r, a', calls') \<Longrightarrow>
     assignment_complete pz r \<and> consistent pz r = Inr True"
proof (induction pz doms a calls and pz doms var vals a calls arbitrary: r a' calls' and r a' calls'
        rule: backtrack_backtrack_loop.induct)
  case (1 pz doms a calls)
  show ?case
  proof (cases "assignment_complete pz a")
    case True
    with 1(2,3) show ?thesis
      by (auto simp add: backtrack.simps)
  next
    case False
    with 1(3) obtain var vals where var: "select_unassigned_variable pz doms a = Inr var"
      and vals: "order_domain_values pz doms var a = Inr vals"
      and loop: "backtrack_loop pz doms var vals a (Suc calls) = Inr (Some r, a', calls')"
      by (auto simp: backtrack.simps split: sum.splits)
    from 1(1) [OF False var vals loop] show ?thesis .
  qed
next
  case (2 pz doms var a calls)
  then show ?case
    by simp
next
  case (3 pz doms var val rest a calls)
  let ?a1 = "AList.update var val a"
  from 3(4) obtain ok where ok: "consistent pz ?a1 = Inr ok"
    by (auto split: sum.splits)
  show ?case
  proof (cases ok)
    case False
    with 3(4) ok have "backtrack_loop pz doms var rest (AList.delete var ?a1) calls = Inr (Some r, a', calls')"
      by simp
    from 3(3) [OF ok False this] show ?thesis .
  next
    case True
    with 3(4) ok obtain ba where ba: "backtrack pz doms ?a1 calls = Inr ba"
      by (auto split: sum.splits)
    show ?thesis
    proof (cases "fst ba \<noteq> None \<and> fst ba \<noteq> Some []")
      case truthy: True
      with 3(4) ok True ba have "ba = (Some r, a', calls')"
        by simp
      with ba have "backtrack pz doms ?a1 calls = Inr (Some r, a', calls')"
        by simp
      from 3(1) [OF ok True _ this] ok True show ?thesis
        by simp
    next
      case False
      with 3(4) ok True ba
      have "backtrack_loop pz doms var rest (AList.delete var (fst (snd ba))) (snd (snd ba))
              = Inr (Some r, a', calls')"
        by auto
      from 3(2) [OF ok True ba False this] show ?thesis .
    qed
  qed
qed

text \<open>What the check \<open>consistent\<close> establishes when it returns \<open>True\<close>.\<close>

lemma consistent_neighbors_True:
  "consistent_neighbors pz var word a = Inr True \<Longrightarrow> (nvar, nword) \<in> set a \<Longrightarrow> nvar \<noteq> var \<Longrightarrow>
   agree pz nvar nword var word"
proof (induction a)
  case Nil
  then show ?case by simp
next
  case (Cons p a)
  obtain v w where p: "p = (v, w)" by (cases p)
  show ?case
  proof (cases "(nvar, nword) = p")
    case True
    with Cons.prems p show ?thesis
      by (auto simp: agree_def overlaps_at_def split: sum.splits option.splits if_splits)
  next
    case False
    with Cons.prems have "(nvar, nword) \<in> set a" by simp
    moreover from Cons.prems(1) p have "consistent_neighbors pz var word a = Inr True"
      by (auto split: sum.splits option.splits if_splits)
    ultimately show ?thesis
      using Cons.IH Cons.prems(3) by blast
  qed
qed

lemma consistent_items_True:
  "consistent_items pz a it = Inr True \<Longrightarrow> (var, word) \<in> set it \<Longrightarrow>
   length word = var_length var \<and> consistent_neighbors pz var word a = Inr True"
proof (induction it)
  case Nil
  then show ?case by simp
next
  case (Cons p it)
  obtain v w where p: "p = (v, w)" by (cases p)
  show ?case
  proof (cases "(var, word) = p")
    case True
    with Cons.prems p show ?thesis
      by (auto split: sum.splits if_splits)
  next
    case False
    with Cons.prems have "(var, word) \<in> set it" by simp
    moreover from Cons.prems(1) p have "consistent_items pz a it = Inr True"
      by (auto split: sum.splits if_splits)
    ultimately show ?thesis
      using Cons.IH by blast
  qed
qed

lemma distinct_map_snd_pairwise:
  assumes "distinct (map snd a)" "(x, wx) \<in> set a" "(y, wy) \<in> set a" "x \<noteq> y"
  shows "wx \<noteq> wy"
proof
  assume "wx = wy"
  with assms(2,3) have "(x, wx) \<in> set a" "(y, wx) \<in> set a" by simp_all
  with assms(1) have "(x, wx) = (y, wx)"
    by (metis eq_key_imp_eq_value distinct_map map_of_is_SomeI inj_on_def snd_conv)
  with assms(4) show False by simp
qed

lemma consistent_True_spec:
  assumes "consistent pz a = Inr True"
  shows "consistent_spec pz a"
proof -
  from assms have len: "length a = card (set (map snd a))" and it: "consistent_items pz a a = Inr True"
    by (auto simp: consistent_def split: if_splits)
  from len have d: "distinct (map snd a)"
    by (metis card_distinct length_map)
  have one: "\<forall>(x, wx) \<in> set a. \<forall>(y, wy) \<in> set a. x \<noteq> y \<longrightarrow> wx \<noteq> wy"
    using distinct_map_snd_pairwise [OF d] by blast
  have two: "\<forall>(x, wx) \<in> set a. length wx = var_length x"
    using consistent_items_True [OF it] by blast
  have three: "\<forall>(x, wx) \<in> set a. \<forall>(y, wy) \<in> set a. x \<noteq> y \<longrightarrow> agree pz x wx y wy"
  proof (clarify)
    fix x wx y wy
    assume x: "(x, wx) \<in> set a" and y: "(y, wy) \<in> set a" and "x \<noteq> y"
    from consistent_items_True [OF it y]
    have "consistent_neighbors pz y wy a = Inr True" by simp
    from consistent_neighbors_True [OF this x \<open>x \<noteq> y\<close>]
    show "agree pz x wx y wy" .
  qed
  from one two three show ?thesis
    unfolding consistent_spec_def by (intro conjI)
qed

lemma consistent_Nil: "consistent pz [] = Inr True"
  by (simp add: consistent_def)

lemma assignment_complete_iff:
  "assignment_complete pz a \<longleftrightarrow> set (variables pz) \<subseteq> fst ` set a"
  by (auto simp: assignment_complete_def)

section \<open>The check \<open>consistent\<close> decides the consistency of the specification\<close>

lemma agree_wf:
  assumes "wf_crossword pz" "x \<in> set (variables pz)" "y \<in> set (variables pz)" "x \<noteq> y"
    and "length wx = var_length x" "length wy = var_length y"
  shows "agree pz x wx y wy \<longleftrightarrow>
           (case overlaps pz x y of None \<Rightarrow> True | Some ov \<Rightarrow> wx ! fst ov = wy ! snd ov)"
    and "case overlaps pz x y of None \<Rightarrow> True | Some ov \<Rightarrow> fst ov < length wx \<and> snd ov < length wy"
proof -
  show 2: "case overlaps pz x y of None \<Rightarrow> True | Some ov \<Rightarrow> fst ov < length wx \<and> snd ov < length wy"
  proof (cases "overlaps pz x y")
    case None
    then show ?thesis by simp
  next
    case (Some ov)
    obtain a b where ab: "ov = (a, b)" by (cases ov)
    from wf_crossword_Some(2,3) [OF assms(1-4) Some [unfolded ab]] assms(5,6) Some ab
    show ?thesis by simp
  qed
  then show "agree pz x wx y wy \<longleftrightarrow>
           (case overlaps pz x y of None \<Rightarrow> True | Some ov \<Rightarrow> wx ! fst ov = wy ! snd ov)"
    by (auto simp: agree_def split: option.splits)
qed

lemma consistent_neighbors_decides:
  assumes wf: "wf_crossword pz" and var: "var \<in> set (variables pz)" "length word = var_length var"
    and a: "\<forall>(v, w) \<in> set a. v \<in> set (variables pz) \<and> length w = var_length v"
  shows "consistent_neighbors pz var word a
           = Inr (\<forall>(nvar, nword) \<in> set a. nvar \<noteq> var \<longrightarrow> agree pz nvar nword var word)"
  using a
proof (induction a)
  case Nil
  then show ?case by simp
next
  case (Cons p a)
  obtain nvar nword where p: "p = (nvar, nword)" by (cases p)
  from Cons.prems p have nv: "nvar \<in> set (variables pz)" "length nword = var_length nvar"
    by simp_all
  from Cons have IH: "consistent_neighbors pz var word a
           = Inr (\<forall>(nvar, nword) \<in> set a. nvar \<noteq> var \<longrightarrow> agree pz nvar nword var word)"
    by simp
  show ?case
  proof (cases "nvar = var")
    case True
    with IH p show ?thesis by simp
  next
    case False
    note ag = agree_wf [OF wf nv(1) var(1) False nv(2) var(2)]
    show ?thesis
    proof (cases "overlaps pz nvar var")
      case None
      with False nv var IH p show ?thesis
        by (simp add: overlaps_at_def agree_def)
    next
      case (Some ov)
      with ag(2) have inb: "fst ov < length nword" "snd ov < length word"
        by simp_all
      show ?thesis
      proof (cases "nword ! fst ov = word ! snd ov")
        case True
        with Some inb False nv var IH p show ?thesis
          by (simp add: overlaps_at_def agree_def)
      next
        case ne: False
        with Some inb False nv var p show ?thesis
          by (auto simp add: overlaps_at_def agree_def)
      qed
    qed
  qed
qed

lemma consistent_items_decides:
  assumes wf: "wf_crossword pz"
    and a: "\<forall>(v, w) \<in> set a. v \<in> set (variables pz) \<and> length w = var_length v"
    and it: "set it \<subseteq> set a"
  shows "consistent_items pz a it
           = Inr (\<forall>(var, word) \<in> set it. \<forall>(nvar, nword) \<in> set a.
                    nvar \<noteq> var \<longrightarrow> agree pz nvar nword var word)"
  using it
proof (induction it)
  case Nil
  then show ?case by simp
next
  case (Cons p it)
  obtain var word where p: "p = (var, word)" by (cases p)
  from Cons.prems p a have v: "var \<in> set (variables pz)" "length word = var_length var"
    by auto
  note n = consistent_neighbors_decides [OF wf v a]
  from Cons have IH: "consistent_items pz a it
           = Inr (\<forall>(var, word) \<in> set it. \<forall>(nvar, nword) \<in> set a.
                    nvar \<noteq> var \<longrightarrow> agree pz nvar nword var word)"
    by simp
  show ?case
    unfolding p by (simp add: v n IH)
qed

lemma pairwise_distinct_map_snd:
  assumes "distinct (map fst a)"
  shows "distinct (map snd a) \<longleftrightarrow> (\<forall>(x, wx) \<in> set a. \<forall>(y, wy) \<in> set a. x \<noteq> y \<longrightarrow> wx \<noteq> wy)"
  using assms
proof (induction a)
  case Nil
  then show ?case by simp
next
  case (Cons p a)
  obtain x wx where p: "p = (x, wx)" by (cases p)
  from Cons.prems p have x: "x \<notin> fst ` set a" and d: "distinct (map fst a)"
    by simp_all
  from x have other: "\<And>y wy. (y, wy) \<in> set a \<Longrightarrow> y \<noteq> x"
    by force
  show ?case
    unfolding p using Cons.IH [OF d] other
    by (auto simp: image_iff) blast+
qed

lemma consistent_decides:
  assumes wf: "wf_crossword pz" and d: "distinct (map fst a)"
    and a: "\<forall>(v, w) \<in> set a. v \<in> set (variables pz) \<and> length w = var_length v"
  shows "consistent pz a = Inr (consistent_spec pz a)"
proof -
  have len: "(length a \<noteq> card (set (map snd a))) \<longleftrightarrow> \<not> distinct (map snd a)"
    by (metis card_distinct distinct_card length_map)
  have two: "\<forall>(x, wx) \<in> set a. length wx = var_length x"
    using a by auto
  have three: "(\<forall>(var, word) \<in> set a. \<forall>(nvar, nword) \<in> set a.
                    nvar \<noteq> var \<longrightarrow> agree pz nvar nword var word)
        \<longleftrightarrow> (\<forall>(x, wx) \<in> set a. \<forall>(y, wy) \<in> set a. x \<noteq> y \<longrightarrow> agree pz x wx y wy)"
    by blast
  show ?thesis
  proof (cases "distinct (map snd a)")
    case False
    with len have "consistent pz a = Inr False"
      by (simp add: consistent_def)
    moreover from False have "\<not> consistent_spec pz a"
      by (simp add: consistent_spec_def pairwise_distinct_map_snd [OF d])
    ultimately show ?thesis by simp
  next
    case True
    with len have "consistent pz a = consistent_items pz a a"
      by (simp add: consistent_def)
    also have "\<dots> = Inr (\<forall>(var, word) \<in> set a. \<forall>(nvar, nword) \<in> set a.
                    nvar \<noteq> var \<longrightarrow> agree pz nvar nword var word)"
      by (rule consistent_items_decides [OF wf a]) simp
    also have "\<dots> = Inr (consistent_spec pz a)"
      using True two by (simp add: consistent_spec_def pairwise_distinct_map_snd [OF d] three)
    finally show ?thesis .
  qed
qed

section \<open>The two heuristics return, and return what the search needs\<close>

lemma count_ruled_out_returns:
  "x < length our_word \<Longrightarrow> \<forall>w \<in> set ws. y < length w \<Longrightarrow>
   \<exists>m. count_ruled_out x y our_word ws n = Inr m"
  by (induction ws arbitrary: n) auto

lemma ruled_out_neighbors_returns:
  assumes "\<forall>nvar \<in> set nb. \<exists>ov. overlaps_at pz var nvar = Inr (Some ov)
             \<and> fst ov < length our_word \<and> (\<forall>w \<in> set (doms nvar). snd ov < length w)"
  shows "\<exists>m. ruled_out_neighbors pz doms var our_word nb n = Inr m"
  using assms
proof (induction nb arbitrary: n)
  case Nil
  then show ?case by simp
next
  case (Cons nvar nb)
  then obtain ov where ov: "overlaps_at pz var nvar = Inr (Some ov)"
    "fst ov < length our_word" "\<forall>w \<in> set (doms nvar). snd ov < length w"
    by auto
  from count_ruled_out_returns [OF ov(2,3)] obtain m
    where m: "count_ruled_out (fst ov) (snd ov) our_word (doms nvar) n = Inr m" ..
  from Cons.IH [of m] Cons.prems obtain m' where "ruled_out_neighbors pz doms var our_word nb m = Inr m'"
    by auto
  with ov(1) m show ?case
    by simp
qed

lemma ruled_out_words_returns:
  assumes "\<forall>our_word \<in> set ws. \<forall>nvar \<in> set nb. \<exists>ov. overlaps_at pz var nvar = Inr (Some ov)
             \<and> fst ov < length our_word \<and> (\<forall>w \<in> set (doms nvar). snd ov < length w)"
  shows "\<exists>m. ruled_out_words pz doms var nb ws ruled_out = Inr m"
  using assms
proof (induction ws arbitrary: ruled_out)
  case Nil
  then show ?case by simp
next
  case (Cons our_word ws)
  then have "\<forall>nvar \<in> set nb. \<exists>ov. overlaps_at pz var nvar = Inr (Some ov)
             \<and> fst ov < length our_word \<and> (\<forall>w \<in> set (doms nvar). snd ov < length w)"
    by simp
  from ruled_out_neighbors_returns [OF this] obtain n
    where n: "ruled_out_neighbors pz doms var our_word nb 0 = Inr n" ..
  from Cons.prems have "\<forall>our_word \<in> set ws. \<forall>nvar \<in> set nb. \<exists>ov. overlaps_at pz var nvar = Inr (Some ov)
             \<and> fst ov < length our_word \<and> (\<forall>w \<in> set (doms nvar). snd ov < length w)"
    by simp
  from Cons.IH [OF this, of "ruled_out(our_word \<mapsto> n)"]
  obtain m where "ruled_out_words pz doms var nb ws (ruled_out(our_word \<mapsto> n)) = Inr m" ..
  with n have "ruled_out_words pz doms var nb (our_word # ws) ruled_out = Inr m"
    by (simp del: fun_upd_apply)
  then show ?case by (rule exI [of _ m])
qed

lemma order_domain_values_set:
  "order_domain_values pz doms var a = Inr vals \<Longrightarrow> set vals = set (doms var)"
  by (auto simp: order_domain_values_def Let_def split: sum.splits)

lemma order_domain_values_returns:
  assumes wf: "wf_crossword pz" and nc: "node_consistent pz doms" and var: "var \<in> set (variables pz)"
  shows "\<exists>vals. order_domain_values pz doms var a = Inr vals"
proof -
  let ?nb = "filter (\<lambda>v. v \<notin> set (map fst a)) (neighbors pz var)"
  have "\<forall>our_word \<in> set (doms var). \<forall>nvar \<in> set ?nb. \<exists>ov. overlaps_at pz var nvar = Inr (Some ov)
             \<and> fst ov < length our_word \<and> (\<forall>w \<in> set (doms nvar). snd ov < length w)"
  proof (intro ballI)
    fix our_word nvar
    assume w: "our_word \<in> set (doms var)" and "nvar \<in> set ?nb"
    then have n: "nvar \<in> set (variables pz)" "nvar \<noteq> var" "overlaps pz nvar var \<noteq> None"
      by (simp_all add: set_neighbors)
    then obtain b c where "overlaps pz nvar var = Some (b, c)"
      by (cases "overlaps pz nvar var") auto
    from wf_crossword_Some(1) [OF wf n(1) var n(2) this]
    have ov: "overlaps pz var nvar = Some (c, b)" .
    note long = node_consistent_long [OF nc wf var n(1) n(2) [symmetric] ov]
    from ov var n have "overlaps_at pz var nvar = Inr (Some (c, b))"
      by (simp add: overlaps_at_def)
    with long w show "\<exists>ov. overlaps_at pz var nvar = Inr (Some ov)
             \<and> fst ov < length our_word \<and> (\<forall>w \<in> set (doms nvar). snd ov < length w)"
      by auto
  qed
  from ruled_out_words_returns [OF this] obtain m
    where "ruled_out_words pz doms var ?nb (doms var) Map.empty = Inr m" ..
  then show ?thesis
    by (simp add: order_domain_values_def Let_def)
qed

lemma select_unassigned_variable_returns:
  assumes "\<not> assignment_complete pz a"
  shows "\<exists>var. select_unassigned_variable pz doms a = Inr var"
proof -
  let ?vars = "filter (\<lambda>v. v \<notin> set (map fst a)) (variables pz)"
  let ?s = "sort_key (\<lambda>v. length (doms v)) (sort_key (\<lambda>d. - int (length (neighbors pz d))) ?vars)"
  from assms have "?vars \<noteq> []"
    by (auto simp: assignment_complete_def filter_empty_conv)
  have len: "length ?s = length ?vars"
    by simp
  obtain v rest where "?s = v # rest"
  proof (cases ?s)
    case Nil
    from len [unfolded Nil] \<open>?vars \<noteq> []\<close> show ?thesis
      by simp
  next
    case (Cons v rest)
    with that show ?thesis .
  qed
  then have "select_unassigned_variable pz doms a = Inr v"
    by (simp add: select_unassigned_variable_def Let_def)
  then show ?thesis ..
qed

lemma select_unassigned_variable_least:
  assumes "select_unassigned_variable pz doms a = Inr var"
    and "v \<in> set (variables pz)" "v \<notin> fst ` set a"
  shows "length (doms var) \<le> length (doms v)"
proof -
  let ?vars = "filter (\<lambda>v. v \<notin> set (map fst a)) (variables pz)"
  let ?s = "sort_key (\<lambda>v. length (doms v)) (sort_key (\<lambda>d. - int (length (neighbors pz d))) ?vars)"
  from assms(1) obtain rest where s: "?s = var # rest"
    by (auto simp: select_unassigned_variable_def Let_def split: list.splits)
  have "sorted (map (\<lambda>v. length (doms v)) ?s)"
    by (rule sorted_sort_key)
  with s have "sorted (length (doms var) # map (\<lambda>v. length (doms v)) rest)"
    by simp
  then have le: "\<forall>u \<in> set rest. length (doms var) \<le> length (doms u)"
    by simp
  from assms(2,3) have "v \<in> set ?s"
    by simp
  with s have "v = var \<or> v \<in> set rest"
    by simp
  with le show ?thesis
    by auto
qed

section \<open>Completeness of the search\<close>

lemma update_fresh: "var \<notin> fst ` set a \<Longrightarrow> AList.update var val a = a @ [(var, val)]"
  by (induction a) auto

lemma search_state_update:
  assumes "search_state pz doms a" "var \<in> set (variables pz)" "var \<notin> fst ` set a"
    "val \<in> set (doms var)"
  shows "search_state pz doms (AList.update var val a)"
  using assms unfolding search_state_def update_fresh [OF assms(3)] by auto

lemma search_state_lengths:
  assumes "search_state pz doms a"
  shows "\<forall>(v, w) \<in> set a. v \<in> set (variables pz) \<and> length w = var_length v"
proof (clarify)
  fix v w assume vw: "(v, w) \<in> set a"
  with assms have v: "v \<in> set (variables pz)" and w: "w \<in> set (doms v)"
    unfolding search_state_def by force+
  moreover from assms have "node_consistent pz doms"
    by (simp add: search_state_def)
  ultimately show "v \<in> set (variables pz) \<and> length w = var_length v"
    by (simp add: node_consistent_def)
qed

lemma search_state_consistent:
  assumes "search_state pz doms a"
  shows "consistent pz a = Inr (consistent_spec pz a)"
proof (rule consistent_decides [OF _ _ search_state_lengths [OF assms]])
  from assms show "wf_crossword pz" "distinct (map fst a)"
    by (simp_all add: search_state_def)
qed

lemma consistent_spec_mono:
  assumes "consistent_spec pz s" "set a \<subseteq> set s"
  shows "consistent_spec pz a"
proof -
  from assms have one: "\<forall>(x, wx) \<in> set a. \<forall>(y, wy) \<in> set a. x \<noteq> y \<longrightarrow> wx \<noteq> wy"
    unfolding consistent_spec_def by blast
  from assms have two: "\<forall>(x, wx) \<in> set a. length wx = var_length x"
    unfolding consistent_spec_def by blast
  from assms have three: "\<forall>(x, wx) \<in> set a. \<forall>(y, wy) \<in> set a. x \<noteq> y \<longrightarrow> agree pz x wx y wy"
    unfolding consistent_spec_def by blast
  from one two three show ?thesis
    unfolding consistent_spec_def by (intro conjI)
qed

lemma solution_complete_state:
  assumes "search_state pz doms a" "consistent_spec pz a" "assignment_complete pz a"
  shows "solution pz doms a"
  using assms unfolding search_state_def solution_def assignment_complete_iff by auto

lemma solution_has_value:
  assumes "solution pz doms s" "var \<in> set (variables pz)"
  shows "\<exists>val \<in> set (doms var). (var, val) \<in> set s"
proof -
  from assms have "var \<in> fst ` set s"
    by (simp add: solution_def)
  then obtain val where v: "(var, val) \<in> set s"
    by force
  with assms(1) have "val \<in> set (doms var)"
    unfolding solution_def by blast
  with v show ?thesis ..
qed

lemma backtrack_complete:
  "search_state pz doms a \<Longrightarrow> consistent_spec pz a \<Longrightarrow>
     \<exists>res a' calls'. backtrack pz doms a calls = Inr (res, a', calls')
        \<and> (res = None \<longrightarrow> \<not> (\<exists>s. solution pz doms s \<and> set a \<subseteq> set s))
        \<and> (\<forall>r. res = Some r \<longrightarrow> solution pz doms r \<and> set a \<subseteq> set r)"
  "search_state pz doms a \<Longrightarrow> var \<in> set (variables pz) \<Longrightarrow> var \<notin> fst ` set a \<Longrightarrow>
   set vals \<subseteq> set (doms var) \<Longrightarrow>
     \<exists>res a' calls'. backtrack_loop pz doms var vals a calls = Inr (res, a', calls')
        \<and> (res = None \<longrightarrow>
              \<not> (\<exists>s. solution pz doms s \<and> set a \<subseteq> set s \<and> (\<exists>val \<in> set vals. (var, val) \<in> set s)))
        \<and> (\<forall>r. res = Some r \<longrightarrow> solution pz doms r \<and> set a \<subseteq> set r)"
proof (induction pz doms a calls and pz doms var vals a calls
        rule: backtrack_backtrack_loop.induct)
  case (1 pz doms a calls)
  note st = 1(2) and cs = 1(3)
  show ?case
  proof (cases "assignment_complete pz a")
    case True
    then have "backtrack pz doms a calls = Inr (Some a, a, Suc calls)"
      by (simp add: backtrack.simps)
    moreover from solution_complete_state [OF st cs True] have "solution pz doms a" .
    ultimately show ?thesis
      by auto
  next
    case False
    from st have wf: "wf_crossword pz" and nc: "node_consistent pz doms"
      by (simp_all add: search_state_def)
    from select_unassigned_variable_returns [OF False] obtain var
      where var: "select_unassigned_variable pz doms a = Inr var" ..
    from select_unassigned_variable_Inr [OF var]
    have v: "var \<in> set (variables pz)" "var \<notin> fst ` set a"
      by simp_all
    from order_domain_values_returns [OF wf nc v(1)] obtain vals
      where vals: "order_domain_values pz doms var a = Inr vals" ..
    from order_domain_values_set [OF vals] have sv: "set vals = set (doms var)" .
    then have sub: "set vals \<subseteq> set (doms var)"
      by simp
    from 1(1) [OF False var vals st v sub, of ] obtain res a' calls'
      where loop: "backtrack_loop pz doms var vals a (Suc calls) = Inr (res, a', calls')"
        and none: "res = None \<longrightarrow>
              \<not> (\<exists>s. solution pz doms s \<and> set a \<subseteq> set s \<and> (\<exists>val \<in> set vals. (var, val) \<in> set s))"
        and some: "\<forall>r. res = Some r \<longrightarrow> solution pz doms r \<and> set a \<subseteq> set r"
      by blast
    from False var vals loop
    have eq: "backtrack pz doms a calls = Inr (res, a', calls')"
      by (simp add: backtrack.simps)
    have "res = None \<longrightarrow> \<not> (\<exists>s. solution pz doms s \<and> set a \<subseteq> set s)"
    proof (intro impI notI)
      assume n: "res = None" and "\<exists>s. solution pz doms s \<and> set a \<subseteq> set s"
      then obtain s where s: "solution pz doms s" "set a \<subseteq> set s"
        by blast
      from solution_has_value [OF s(1) v(1)] sv
      have "\<exists>val \<in> set vals. (var, val) \<in> set s"
        by simp
      with none n s show False
        by blast
    qed
    with eq some show ?thesis
      by blast
  qed
next
  case (2 pz doms var a calls)
  show ?case
    by simp
next
  case (3 pz doms var val rest a calls)
  note st = 3(4) and var = 3(5) and fresh = 3(6) and sub = 3(7)
  let ?a1 = "AList.update var val a"
  from sub have val: "val \<in> set (doms var)" and sub': "set rest \<subseteq> set (doms var)"
    by simp_all
  have a1: "?a1 = a @ [(var, val)]"
    by (rule update_fresh [OF fresh])
  have st1: "search_state pz doms ?a1"
    by (rule search_state_update [OF st var fresh val])
  note cons = search_state_consistent [OF st1]
  have del: "AList.delete var ?a1 = a"
    using fresh by (simp add: AList.delete_update_same)
  have ext: "\<And>s. set a \<subseteq> set s \<Longrightarrow> (var, val) \<in> set s \<Longrightarrow> set ?a1 \<subseteq> set s"
    unfolding a1 by simp
  show ?case
  proof (cases "consistent_spec pz ?a1")
    case False
    with cons have c: "consistent pz ?a1 = Inr False"
      by simp
    have st': "search_state pz doms (AList.delete var ?a1)"
      unfolding del by (rule st)
    have fresh': "var \<notin> fst ` set (AList.delete var ?a1)"
      unfolding del by (rule fresh)
    have nf: "\<not> False"
      by simp
    from 3(3) [OF c nf st' var fresh' sub', unfolded del]
    obtain res a' calls'
      where loop: "backtrack_loop pz doms var rest a calls = Inr (res, a', calls')"
        and none: "res = None \<longrightarrow>
              \<not> (\<exists>s. solution pz doms s \<and> set a \<subseteq> set s \<and> (\<exists>val \<in> set rest. (var, val) \<in> set s))"
        and some: "\<forall>r. res = Some r \<longrightarrow> solution pz doms r \<and> set a \<subseteq> set r"
      by blast
    from c loop del
    have eq: "backtrack_loop pz doms var (val # rest) a calls = Inr (res, a', calls')"
      by simp
    have "res = None \<longrightarrow>
              \<not> (\<exists>s. solution pz doms s \<and> set a \<subseteq> set s \<and> (\<exists>v \<in> set (val # rest). (var, v) \<in> set s))"
    proof (intro impI notI)
      assume n: "res = None"
        and "\<exists>s. solution pz doms s \<and> set a \<subseteq> set s \<and> (\<exists>v \<in> set (val # rest). (var, v) \<in> set s)"
      then obtain s v where s: "solution pz doms s" "set a \<subseteq> set s" "v \<in> set (val # rest)" "(var, v) \<in> set s"
        by blast
      show False
      proof (cases "v = val")
        case True
        with s have "consistent_spec pz s" "set ?a1 \<subseteq> set s"
          using ext by (simp_all add: solution_def)
        from consistent_spec_mono [OF this] False show False
          by simp
      next
        case ne: False
        with s have "v \<in> set rest" by simp
        with none n s show False by blast
      qed
    qed
    with eq some show ?thesis
      by blast
  next
    case True
    with cons have c: "consistent pz ?a1 = Inr True"
      by simp
    from 3(1) [OF c TrueI st1 True] obtain res1 a1' c1
      where bt: "backtrack pz doms ?a1 calls = Inr (res1, a1', c1)"
        and none1: "res1 = None \<longrightarrow> \<not> (\<exists>s. solution pz doms s \<and> set ?a1 \<subseteq> set s)"
        and some1: "\<forall>r. res1 = Some r \<longrightarrow> solution pz doms r \<and> set ?a1 \<subseteq> set r"
      by blast
    note br = backtrack_result [OF bt]
    show ?thesis
    proof (cases res1)
      case (Some r)
      with br(2) have "r \<noteq> []"
        by auto
      with Some c bt
      have eq: "backtrack_loop pz doms var (val # rest) a calls = Inr (Some r, a1', c1)"
        by simp
      from some1 Some have "solution pz doms r" "set ?a1 \<subseteq> set r"
        by simp_all
      then have "solution pz doms r \<and> set a \<subseteq> set r"
        unfolding a1 by simp
      with eq show ?thesis
        by auto
    next
      case None
      with br(1) have a1': "a1' = ?a1"
        by simp
      have falsy: "\<not> (fst (res1, a1', c1) \<noteq> None \<and> fst (res1, a1', c1) \<noteq> Some [])"
        using None by simp
      have restored: "AList.delete var (fst (snd (res1, a1', c1))) = a" "snd (snd (res1, a1', c1)) = c1"
        by (simp_all add: a1' del)
      have st': "search_state pz doms (AList.delete var (fst (snd (res1, a1', c1))))"
        unfolding restored by (rule st)
      have fresh': "var \<notin> fst ` set (AList.delete var (fst (snd (res1, a1', c1))))"
        unfolding restored by (rule fresh)
      from 3(2) [OF c TrueI bt falsy st' var fresh' sub', unfolded restored]
      obtain res a' calls'
        where loop: "backtrack_loop pz doms var rest a c1 = Inr (res, a', calls')"
          and none: "res = None \<longrightarrow>
              \<not> (\<exists>s. solution pz doms s \<and> set a \<subseteq> set s \<and> (\<exists>val \<in> set rest. (var, val) \<in> set s))"
          and some: "\<forall>r. res = Some r \<longrightarrow> solution pz doms r \<and> set a \<subseteq> set r"
        by blast
      from c bt None loop a1' del
      have eq: "backtrack_loop pz doms var (val # rest) a calls = Inr (res, a', calls')"
        by simp
      have "res = None \<longrightarrow>
              \<not> (\<exists>s. solution pz doms s \<and> set a \<subseteq> set s \<and> (\<exists>v \<in> set (val # rest). (var, v) \<in> set s))"
      proof (intro impI notI)
        assume n: "res = None"
          and "\<exists>s. solution pz doms s \<and> set a \<subseteq> set s \<and> (\<exists>v \<in> set (val # rest). (var, v) \<in> set s)"
        then obtain s v where s: "solution pz doms s" "set a \<subseteq> set s" "v \<in> set (val # rest)" "(var, v) \<in> set s"
          by blast
        show False
        proof (cases "v = val")
          case True
          with s ext have "set ?a1 \<subseteq> set s"
            by simp
          with none1 None s(1) show False
            by blast
        next
          case ne: False
          with s have "v \<in> set rest" by simp
          with none n s show False by blast
        qed
      qed
      with eq some show ?thesis
        by blast
    qed
  qed
qed

section \<open>Pruning keeps every solution\<close>

lemma solution_values:
  assumes "solution pz doms s" "(v, w) \<in> set s"
  shows "v \<in> set (variables pz)" "w \<in> set (doms v)" "length w = var_length v"
proof -
  from assms show "v \<in> set (variables pz)"
    unfolding solution_def by force
  from assms show "w \<in> set (doms v)"
    unfolding solution_def by blast
  from assms show "length w = var_length v"
    unfolding solution_def consistent_spec_def by blast
qed

lemma solution_pair:
  assumes "solution pz doms s" "(x, wx) \<in> set s" "(y, wy) \<in> set s" "x \<noteq> y"
  shows "wx \<noteq> wy" "agree pz x wx y wy"
proof -
  from assms show "wx \<noteq> wy"
    unfolding solution_def consistent_spec_def by blast
  from assms show "agree pz x wx y wy"
    unfolding solution_def consistent_spec_def by blast
qed

lemma solution_change_domains:
  assumes "solution pz doms s" "\<And>v w. (v, w) \<in> set s \<Longrightarrow> w \<in> set (d v)"
  shows "solution pz d s"
  using assms unfolding solution_def by blast

lemma enforce_node_consistency_solution:
  assumes "solution pz doms s"
  shows "solution pz (enforce_node_consistency pz doms) s"
proof (rule solution_change_domains [OF assms])
  fix v w assume "(v, w) \<in> set s"
  from solution_values [OF assms this]
  show "w \<in> set (enforce_node_consistency pz doms v)"
    by (simp add: enforce_node_consistency_member)
qed

lemma revise_solution:
  assumes s: "solution pz d s" and r: "revise pz d x y = Inr (rv, d1)"
  shows "solution pz d1 s"
proof (rule solution_change_domains [OF s])
  fix v w assume vw: "(v, w) \<in> set s"
  note val = solution_values [OF s vw]
  show "w \<in> set (d1 v)"
  proof (cases "v = x")
    case False
    with revise_other [OF r] val show ?thesis by simp
  next
    case True
    from revise_Inr [OF r] show ?thesis
    proof
      assume "overlaps_at pz x y = Inr None \<and> \<not> rv \<and> d1 = d"
      with val show ?thesis by simp
    next
      assume "\<exists>a b. overlaps_at pz x y = Inr (Some (a, b))
            \<and> compare_domain a b (d x) (d y) = Inr (d1 x)
            \<and> d1 = d(x := d1 x) \<and> rv = (length (d1 x) \<noteq> length (d x))"
      then obtain a b where "overlaps_at pz x y = Inr (Some (a, b))"
        by blast
      then have y: "y \<in> set (variables pz)" and xy: "x \<noteq> y" and ov: "overlaps pz x y = Some (a, b)"
        by (simp_all add: overlaps_at_Inr)
      from solution_has_value [OF s y] obtain wy where wy: "wy \<in> set (d y)" "(y, wy) \<in> set s"
        by blast
      from solution_pair [OF s vw [unfolded True] wy(2) xy] ov
      have "wy \<noteq> w" "b < length wy" "a < length w" "w ! a = wy ! b"
        by (auto simp: agree_def)
      from revise_keeps_supported [OF r ov _ wy(1) this] val True show ?thesis
        by simp
    qed
  qed
qed

lemma ac3_loop_solution:
  assumes res: "ac3_loop pz sched i doms arcs = Inr (b, d')" and s: "solution pz doms s"
  shows "solution pz d' s"
proof (rule ac3_loop_rule [OF res, where I = "\<lambda>d Q. solution pz d s" and P = "\<lambda>b d. solution pz d s"])
  show "solution pz doms s" by (rule s)
next
  fix d x y d1
  assume "solution pz d s" "revise pz d x y = Inr (True, d1)"
  then show "solution pz d1 s" by (rule revise_solution)
next
  fix d x y d1
  assume "solution pz d s" "revise pz d x y = Inr (True, d1)"
  then show "solution pz d1 s" by (rule revise_solution)
qed

lemma solution_superset:
  assumes "solution pz d s" "\<And>v. set (d v) \<subseteq> set (doms v)"
  shows "solution pz doms s"
proof (rule solution_change_domains [OF assms(1)])
  fix v w assume "(v, w) \<in> set s"
  from solution_values(2) [OF assms(1) this] assms(2) show "w \<in> set (doms v)"
    by blast
qed

section \<open>The solver as a whole\<close>

lemma search_state_Nil:
  "wf_crossword pz \<Longrightarrow> node_consistent pz doms \<Longrightarrow> search_state pz doms []"
  by (simp add: search_state_def)

lemma consistent_spec_Nil: "consistent_spec pz []"
  by (simp add: consistent_spec_def)

lemma solve_returns:
  assumes wf: "wf_crossword pz"
  shows "\<exists>ok res d a n.
           ac3 pz sched (enforce_node_consistency pz doms) None = Inr (ok, d)
           \<and> backtrack pz d [] 0 = Inr (res, a, n)
           \<and> solve pz sched doms = Inr (res, d, n)
           \<and> (res = None \<longrightarrow> \<not> (\<exists>s. solution pz d s))
           \<and> (\<forall>r. res = Some r \<longrightarrow> solution pz d r)"
proof -
  let ?d1 = "enforce_node_consistency pz doms"
  have nc1: "node_consistent pz ?d1"
    by (rule enforce_node_consistency_node_consistent)
  from ac3_loop_returns [OF wf nc1 all_arcs_variables] obtain ok d
    where loop: "ac3_loop pz sched 0 ?d1 (all_arcs pz) = Inr (ok, d)"
    by blast
  then have ac3: "ac3 pz sched ?d1 None = Inr (ok, d)"
    by (simp add: ac3_def)
  from ac3_loop_node_consistent [OF loop nc1] have nc2: "node_consistent pz d" .
  from backtrack_complete(1) [OF search_state_Nil [OF wf nc2] consistent_spec_Nil, of 0]
  obtain res a n where bt: "backtrack pz d [] 0 = Inr (res, a, n)"
    and none: "res = None \<longrightarrow> \<not> (\<exists>s. solution pz d s)"
    and some: "\<forall>r. res = Some r \<longrightarrow> solution pz d r"
    by auto
  from ac3 bt have "solve pz sched doms = Inr (res, d, n)"
    by (simp add: solve_def)
  with ac3 bt none some show ?thesis
    by blast
qed

section \<open>A failed propagation and the search after it\<close>

lemma ac3_emptied:
  assumes "ac3 pz sched doms arcs = Inr (ok, d)" "doms v \<noteq> []" "d v = []"
  shows "\<not> ok"
proof (cases "arcs = None \<or> arcs = Some []")
  case True
  with assms(1) have "ac3_loop pz sched 0 doms (all_arcs pz) = Inr (ok, d)"
    by (simp add: ac3_def)
  from ac3_loop_emptied [OF this assms(2,3)] show ?thesis .
next
  case False
  with assms(1) have "ac3_loop pz sched 0 doms (the arcs) = Inr (ok, d)"
    by (simp add: ac3_def)
  from ac3_loop_emptied [OF this assms(2,3)] show ?thesis .
qed

lemma ac3_False:
  assumes "ac3 pz sched doms arcs = Inr (False, d)"
  shows "\<exists>x \<in> set (variables pz). d x = []"
proof (cases "arcs = None \<or> arcs = Some []")
  case True
  with assms(1) have "ac3_loop pz sched 0 doms (all_arcs pz) = Inr (False, d)"
    by (simp add: ac3_def)
  from ac3_loop_False [OF this] show ?thesis .
next
  case False
  with assms(1) have "ac3_loop pz sched 0 doms (the arcs) = Inr (False, d)"
    by (simp add: ac3_def)
  from ac3_loop_False [OF this] show ?thesis .
qed

lemma order_domain_values_empty:
  "doms var = [] \<Longrightarrow> order_domain_values pz doms var a = Inr []"
  by (simp add: order_domain_values_def Let_def)

lemma backtrack_empty_domain:
  assumes "x \<in> set (variables pz)" "doms x = []"
  shows "backtrack pz doms [] calls = Inr (None, [], Suc calls)"
proof -
  from assms(1) have nc: "\<not> assignment_complete pz []"
    by (auto simp: assignment_complete_def)
  from select_unassigned_variable_returns [OF nc] obtain var
    where var: "select_unassigned_variable pz doms [] = Inr var" ..
  from select_unassigned_variable_least [OF var assms(1)] assms(2) have "doms var = []"
    by simp
  then have "order_domain_values pz doms var [] = Inr []"
    by (rule order_domain_values_empty)
  with nc var show ?thesis
    by (simp add: backtrack.simps)
qed

section \<open>Values of the examples\<close>

lemma cross_revise_value:
  "(case revise cross_puzzle cross_domains slot_down slot_across of
      Inr (rv, d) \<Rightarrow> rv \<and> d slot_down = [''dog'', ''toe'']
    | Inl e \<Rightarrow> False)"
  by code_simp

lemma cross_ac3_value:
  "(case ac3 cross_puzzle (\<lambda>_. 0) cross_domains None of
      Inr (ok, d) \<Rightarrow> ok \<and> map d [slot_down, slot_across] = [[''dog'', ''toe''], [''dog'', ''toe'']]
    | Inl e \<Rightarrow> False)"
  by code_simp

lemma cross_solve_value:
  "(case solve cross_puzzle (\<lambda>_. 0) (init_domains cross_puzzle) of
      Inr (r, d, n) \<Rightarrow> r = Some [(slot_down, ''dog''), (slot_across, ''toe'')]
         \<and> map d [slot_down, slot_across] = [[''dog'', ''toe''], [''dog'', ''toe'']] \<and> n = 3
    | Inl e \<Rightarrow> False)"
  by code_simp

lemma cross_revise_in_bounds_value:
  "overlaps cross_puzzle slot_down slot_across = Some (1, 1)
   \<and> (\<forall>w \<in> set (cross_domains slot_down). 1 < length w)
   \<and> (\<forall>v \<in> set (cross_domains slot_across). 1 < length v)
   \<and> compare_domain 1 1 (cross_domains slot_down) (cross_domains slot_across) = Inr [''dog'', ''toe'']"
  by code_simp

lemma cross_puzzle_wf: "wf_crossword cross_puzzle"
  by code_simp

lemma cross_domains_node_consistent: "node_consistent cross_puzzle cross_domains"
  by code_simp

lemma cross_variables_value:
  "slot_down \<in> set (variables cross_puzzle) \<and> slot_across \<in> set (variables cross_puzzle)
   \<and> slot_down \<noteq> slot_across \<and> overlaps cross_puzzle slot_down slot_across = Some (1, 1)"
  by code_simp

lemma cross_backtrack_fail_value:
  "backtrack cross_puzzle (\<lambda>_. [''cat'']) [(slot_down, ''cat'')] 0
     = Inr (None, [(slot_down, ''cat'')], 1)"
  by code_simp

lemma cross_solution_value:
  "solution cross_puzzle (init_domains cross_puzzle) [(slot_down, ''dog''), (slot_across, ''toe'')]"
  by code_simp

lemma clash_puzzle_wf: "wf_crossword clash_puzzle"
  by code_simp

lemma clash_ac3_value:
  "(case ac3 clash_puzzle (\<lambda>_. 0) (enforce_node_consistency clash_puzzle (init_domains clash_puzzle)) None of
      Inr (ok, d) \<Rightarrow> \<not> ok \<and> enforce_node_consistency clash_puzzle (init_domains clash_puzzle) slot_down = [''cat'', ''dog'']
                    \<and> d slot_down = []
    | Inl e \<Rightarrow> False)"
  by code_simp

lemma clash_solve_value:
  "(case solve clash_puzzle (\<lambda>_. 0) (init_domains clash_puzzle) of
      Inr (res, d, calls) \<Rightarrow> res = None \<and> calls = 1
    | Inl e \<Rightarrow> False)"
  by code_simp

text \<open>
  Why arc consistency is stated for node-consistent domains: in \<open>compare_domain\<close> a word
  shorter than the offset is skipped by \<open>continue\<close>, so it stays in the domain although no
  word of the neighbor agrees with it. On the domains with the empty word \<open>ac3\<close> returns
  \<open>True\<close> and the empty word is still there.
\<close>

lemma ac3_keeps_short_word:
  "(case ac3 cross_puzzle (\<lambda>_. 0) short_word_domains None of
      Inr (ok, d) \<Rightarrow> ok \<and> d slot_down = [[], ''dog'', ''toe'']
                    \<and> \<not> arc_consistent d slot_down slot_across 1 1
    | Inl e \<Rightarrow> False)"
  by code_simp

section \<open>Claims\<close>

text \<open>
  C1. The specification says that when a domain becomes empty during propagation, \<open>ac3\<close> returns
  \<open>False\<close> and \<open>solve\<close> returns \<open>None\<close> without calling \<open>backtrack\<close>. For the puzzle
  whose two words cannot cross, \<open>ac3\<close> empties the domain of the slot going down and
  returns \<open>False\<close>, and \<open>solve\<close> returns \<open>None\<close>, but it has called \<open>backtrack\<close>:
  \<open>solve\<close> does not look at what \<open>ac3\<close> returns.
\<close>

theorem ac3_False_solve_counterexample:
  "(case ac3 clash_puzzle (\<lambda>_. 0) (enforce_node_consistency clash_puzzle (init_domains clash_puzzle)) None of
      Inr (ok, d) \<Rightarrow> \<not> ok \<and> enforce_node_consistency clash_puzzle (init_domains clash_puzzle) slot_down = [''cat'', ''dog'']
                    \<and> d slot_down = []
    | Inl e \<Rightarrow> False)
   \<and> (case solve clash_puzzle (\<lambda>_. 0) (init_domains clash_puzzle) of
        Inr (res, d, calls) \<Rightarrow> res = None \<and> calls \<noteq> 0
      | Inl e \<Rightarrow> False)"
  by code_simp

text \<open>
  C1, amended. If the domain of a variable is non-empty when \<open>ac3\<close> is called and empty
  when it returns, \<open>ac3\<close> returns \<open>False\<close>. If \<open>ac3\<close> returns \<open>False\<close> in \<open>solve\<close>, then
  \<open>solve\<close> still calls \<open>backtrack\<close>, exactly once: the call selects a variable with an
  empty domain, tries no value and returns \<open>None\<close>, which is what \<open>solve\<close> returns.
\<close>

theorem ac3_failure_solve:
  "(ac3 pz sched doms arcs = Inr (ok, d) \<and> doms v \<noteq> [] \<and> d v = [] \<longrightarrow> \<not> ok)
   \<and> (ac3 pz sched (enforce_node_consistency pz doms0) None = Inr (False, d2) \<longrightarrow>
        backtrack pz d2 [] 0 = Inr (None, [], 1) \<and> solve pz sched doms0 = Inr (None, d2, 1))"
proof (intro conjI impI)
  assume "ac3 pz sched doms arcs = Inr (ok, d) \<and> doms v \<noteq> [] \<and> d v = []"
  then show "\<not> ok"
    using ac3_emptied by blast
next
  assume a: "ac3 pz sched (enforce_node_consistency pz doms0) None = Inr (False, d2)"
  from ac3_False [OF a] obtain x where x: "x \<in> set (variables pz)" "d2 x = []"
    by blast
  from backtrack_empty_domain [of x pz d2 0, OF x]
  show bt: "backtrack pz d2 [] 0 = Inr (None, [], 1)"
    by simp
  with a show "solve pz sched doms0 = Inr (None, d2, 1)"
    by (simp add: solve_def)
qed

theorem ac3_failure_solve_witness:
  "\<exists>d. ac3 clash_puzzle (\<lambda>_. 0) (enforce_node_consistency clash_puzzle (init_domains clash_puzzle)) None
          = Inr (False, d)
       \<and> enforce_node_consistency clash_puzzle (init_domains clash_puzzle) slot_down \<noteq> []
       \<and> d slot_down = []
       \<and> backtrack clash_puzzle d [] 0 = Inr (None, [], 1)
       \<and> solve clash_puzzle (\<lambda>_. 0) (init_domains clash_puzzle) = Inr (None, d, 1)"
proof -
  let ?d1 = "enforce_node_consistency clash_puzzle (init_domains clash_puzzle)"
  obtain d where d: "ac3 clash_puzzle (\<lambda>_. 0) ?d1 None = Inr (False, d)"
    and e: "?d1 slot_down \<noteq> []" "d slot_down = []"
    using clash_ac3_value
    by (cases "ac3 clash_puzzle (\<lambda>_. 0) ?d1 None") auto
  from ac3_failure_solve [of clash_puzzle "\<lambda>_. 0" ?d1 None False d slot_down "init_domains clash_puzzle" d] d
  have "backtrack clash_puzzle d [] 0 = Inr (None, [], 1)"
    "solve clash_puzzle (\<lambda>_. 0) (init_domains clash_puzzle) = Inr (None, d, 1)"
    by simp_all
  with d e show ?thesis
    by (intro exI [of _ d] conjI)
qed

text \<open>
  C2. Every assignment that \<open>solve\<close> returns is complete: it assigns a word to every
  variable of the puzzle; and it is consistent, for the check \<open>consistent\<close> of the code
  (which returns \<open>True\<close> on it) and in the words of the specification: the assigned words
  are pairwise distinct, each has the length of its variable, and the words of two
  variables with a defined overlap have equal characters at the offsets of the overlap.
\<close>

theorem solve_sound:
  assumes "solve pz sched doms = Inr (Some r, d, n)"
  shows "assignment_complete pz r \<and> set (variables pz) \<subseteq> fst ` set r
         \<and> consistent pz r = Inr True \<and> consistent_spec pz r"
proof -
  from solve_Inr [OF assms] obtain a where "backtrack pz d [] 0 = Inr (Some r, a, n)"
    by blast
  from backtrack_sound(1) [OF consistent_Nil this]
  have c: "assignment_complete pz r" "consistent pz r = Inr True"
    by simp_all
  from c(1) have "set (variables pz) \<subseteq> fst ` set r"
    by (simp add: assignment_complete_iff)
  with c consistent_True_spec [OF c(2)] show ?thesis
    by (intro conjI)
qed

theorem solve_sound_witness:
  "\<exists>d. solve cross_puzzle (\<lambda>_. 0) (init_domains cross_puzzle)
          = Inr (Some [(slot_down, ''dog''), (slot_across, ''toe'')], d, 3)
       \<and> assignment_complete cross_puzzle [(slot_down, ''dog''), (slot_across, ''toe'')]
       \<and> consistent_spec cross_puzzle [(slot_down, ''dog''), (slot_across, ''toe'')]"
proof -
  obtain d where d: "solve cross_puzzle (\<lambda>_. 0) (init_domains cross_puzzle)
          = Inr (Some [(slot_down, ''dog''), (slot_across, ''toe'')], d, 3)"
    using cross_solve_value
    by (cases "solve cross_puzzle (\<lambda>_. 0) (init_domains cross_puzzle)") auto
  from solve_sound [OF d] d show ?thesis
    by (intro exI [of _ d] conjI) simp_all
qed

text \<open>
  C3. Completeness of the search, for a puzzle as the class \<open>Crossword\<close> builds it and
  any domains \<open>solve\<close> is started with: if some complete assignment that takes the word of
  every variable from its domain is consistent, \<open>solve\<close> returns such an assignment (its
  words are also in the pruned domains); if there is none, \<open>solve\<close> returns \<open>None\<close>. In
  both cases \<open>solve\<close> returns: it raises no exception and the search terminates.
\<close>

theorem solve_complete:
  assumes "wf_crossword pz"
  shows "((\<exists>s. solution pz doms s) \<longrightarrow>
            (\<exists>r d n. solve pz sched doms = Inr (Some r, d, n) \<and> solution pz doms r \<and> solution pz d r))
         \<and> (\<not> (\<exists>s. solution pz doms s) \<longrightarrow> (\<exists>d n. solve pz sched doms = Inr (None, d, n)))"
proof -
  let ?d1 = "enforce_node_consistency pz doms"
  from solve_returns [OF assms, of sched doms] obtain ok res d a n
    where ac3: "ac3 pz sched ?d1 None = Inr (ok, d)"
      and solve: "solve pz sched doms = Inr (res, d, n)"
      and none: "res = None \<longrightarrow> \<not> (\<exists>s. solution pz d s)"
      and some: "\<forall>r. res = Some r \<longrightarrow> solution pz d r"
    by blast
  from ac3 have loop: "ac3_loop pz sched 0 ?d1 (all_arcs pz) = Inr (ok, d)"
    by (simp add: ac3_def)
  have sub: "\<And>v. set (d v) \<subseteq> set (doms v)"
    using ac3_subset [OF ac3] enforce_node_consistency_subset by blast
  have pruned: "solution pz d s" if "solution pz doms s" for s
    by (rule ac3_loop_solution [OF loop enforce_node_consistency_solution [OF that]])
  have original: "solution pz doms s" if "solution pz d s" for s
    by (rule solution_superset [OF that sub])
  show ?thesis
  proof (intro conjI impI)
    assume "\<exists>s. solution pz doms s"
    then obtain s where "solution pz d s"
      using pruned by blast
    with none obtain r where r: "res = Some r"
      by (cases res) auto
    with some have "solution pz d r"
      by simp
    with original [OF this] solve r
    show "\<exists>r d n. solve pz sched doms = Inr (Some r, d, n) \<and> solution pz doms r \<and> solution pz d r"
      by blast
  next
    assume no: "\<not> (\<exists>s. solution pz doms s)"
    have "res = None"
    proof (cases res)
      case (Some r)
      with some have "solution pz d r" by simp
      from original [OF this] no show ?thesis by blast
    qed simp
    with solve show "\<exists>d n. solve pz sched doms = Inr (None, d, n)"
      by blast
  qed
qed

theorem solve_complete_witness:
  "wf_crossword cross_puzzle
   \<and> solution cross_puzzle (init_domains cross_puzzle) [(slot_down, ''dog''), (slot_across, ''toe'')]
   \<and> (\<exists>d. solve cross_puzzle (\<lambda>_. 0) (init_domains cross_puzzle)
             = Inr (Some [(slot_down, ''dog''), (slot_across, ''toe'')], d, 3))
   \<and> wf_crossword clash_puzzle
   \<and> \<not> (\<exists>s. solution clash_puzzle (init_domains clash_puzzle) s)
   \<and> (\<exists>d. solve clash_puzzle (\<lambda>_. 0) (init_domains clash_puzzle) = Inr (None, d, 1))"
proof -
  have one: "\<exists>d. solve cross_puzzle (\<lambda>_. 0) (init_domains cross_puzzle)
             = Inr (Some [(slot_down, ''dog''), (slot_across, ''toe'')], d, 3)"
    using cross_solve_value
    by (cases "solve cross_puzzle (\<lambda>_. 0) (init_domains cross_puzzle)") auto
  have two: "\<exists>d. solve clash_puzzle (\<lambda>_. 0) (init_domains clash_puzzle) = Inr (None, d, 1)"
    using clash_solve_value
    by (cases "solve clash_puzzle (\<lambda>_. 0) (init_domains clash_puzzle)") auto
  note thm1 = solve_complete [OF cross_puzzle_wf, of "init_domains cross_puzzle" "\<lambda>_. 0"]
  note thm2 = solve_complete [OF clash_puzzle_wf, of "init_domains clash_puzzle" "\<lambda>_. 0"]
  from thm1 cross_solution_value
  have "\<exists>r d n. solve cross_puzzle (\<lambda>_. 0) (init_domains cross_puzzle) = Inr (Some r, d, n)"
    by blast
  have three: "\<not> (\<exists>s. solution clash_puzzle (init_domains clash_puzzle) s)"
  proof
    assume "\<exists>s. solution clash_puzzle (init_domains clash_puzzle) s"
    with thm2 obtain r d n where "solve clash_puzzle (\<lambda>_. 0) (init_domains clash_puzzle) = Inr (Some r, d, n)"
      by blast
    with two show False by auto
  qed
  from cross_puzzle_wf cross_solution_value one clash_puzzle_wf three two show ?thesis
    by (intro conjI)
qed

text \<open>
  C4. The specification says that whenever \<open>ac3\<close> returns \<open>True\<close>, every pair of variables with a
  defined overlap is arc consistent. It fails when \<open>ac3\<close> is given arcs of its own: with
  the single arc from the slot going down to the slot going across, only that arc is
  revised, and \<open>cat\<close> stays in the domain of the slot going across without a partner in
  the domain of the other slot.
\<close>

theorem ac3_explicit_arcs_counterexample:
  "overlaps cross_puzzle slot_across slot_down = Some (1, 1)
   \<and> (case ac3 cross_puzzle (\<lambda>_. 0) cross_domains (Some [(slot_down, slot_across)]) of
        Inr (ok, d) \<Rightarrow> ok \<and> d slot_across = [''cat'', ''dog'', ''toe''] \<and> d slot_down = [''dog'', ''toe'']
                      \<and> \<not> arc_consistent d slot_across slot_down 1 1
      | Inl e \<Rightarrow> False)"
  by code_simp

text \<open>
  C4, amended. For a puzzle as the class \<open>Crossword\<close> builds it and node-consistent
  domains, whenever \<open>ac3\<close>, started from all arcs (called with \<open>None\<close> or with an empty
  collection), returns \<open>True\<close>, every word in the domain of \<open>x\<close> has a different word in
  the domain of \<open>y\<close> that agrees with it at the offsets of the overlap of \<open>x\<close> and \<open>y\<close>.
  The domains are node consistent whenever \<open>solve\<close> calls \<open>ac3\<close>; what \<open>ac3\<close> does with
  words that are too short is left open here.
\<close>

theorem ac3_arc_consistent:
  assumes "wf_crossword pz" and "node_consistent pz doms"
    and "arcs = None \<or> arcs = Some []"
    and "ac3 pz sched doms arcs = Inr (True, d)"
    and "x \<in> set (variables pz)" and "y \<in> set (variables pz)" and "x \<noteq> y"
    and "overlaps pz x y = Some (a, b)"
  shows "arc_consistent d x y a b"
proof -
  from assms(3,4) have "ac3_loop pz sched 0 doms (all_arcs pz) = Inr (True, d)"
    by (auto simp: ac3_def)
  from ac3_loop_arc_consistent [OF this assms(1,2) arcs_consistent_all_arcs [OF assms(1)]]
  have "arcs_consistent pz d {}" .
  from arcs_consistentD [OF this assms(5-8)] show ?thesis
    by simp
qed

theorem ac3_arc_consistent_witness:
  "wf_crossword cross_puzzle \<and> node_consistent cross_puzzle cross_domains
   \<and> (\<exists>d. ac3 cross_puzzle (\<lambda>_. 0) cross_domains None = Inr (True, d)
          \<and> map d [slot_down, slot_across] = [[''dog'', ''toe''], [''dog'', ''toe'']]
          \<and> arc_consistent d slot_down slot_across 1 1)"
proof -
  obtain d where d: "ac3 cross_puzzle (\<lambda>_. 0) cross_domains None = Inr (True, d)"
    and v: "map d [slot_down, slot_across] = [[''dog'', ''toe''], [''dog'', ''toe'']]"
    using cross_ac3_value
    by (cases "ac3 cross_puzzle (\<lambda>_. 0) cross_domains None") auto
  from cross_variables_value
  have m: "slot_down \<in> set (variables cross_puzzle)" "slot_across \<in> set (variables cross_puzzle)"
    "slot_down \<noteq> slot_across" "overlaps cross_puzzle slot_down slot_across = Some (1, 1)"
    by simp_all
  have "None = None \<or> None = Some ([] :: arc list)"
    by simp
  from ac3_arc_consistent [OF cross_puzzle_wf cross_domains_node_consistent this d m]
  have "arc_consistent d slot_down slot_across 1 1" .
  with d v have "\<exists>d. ac3 cross_puzzle (\<lambda>_. 0) cross_domains None = Inr (True, d)
          \<and> map d [slot_down, slot_across] = [[''dog'', ''toe''], [''dog'', ''toe'']]
          \<and> arc_consistent d slot_down slot_across 1 1"
    by (intro exI [of _ d] conjI)
  with cross_puzzle_wf cross_domains_node_consistent show ?thesis
    by (intro conjI)
qed

text \<open>
  C5. The specification says that whenever \<open>ac3\<close> returns \<open>True\<close> every domain is non-empty, also
  a domain that was empty before the call. The code returns \<open>True\<close> for the puzzle with a
  single slot whose domain node consistency has emptied: the slot has no neighbor, the
  queue is empty, and the loop is never entered.
\<close>

theorem ac3_True_with_empty_domain:
  "ac3 lone_puzzle sched (enforce_node_consistency lone_puzzle (init_domains lone_puzzle)) None
     = Inr (True, enforce_node_consistency lone_puzzle (init_domains lone_puzzle))
   \<and> enforce_node_consistency lone_puzzle (init_domains lone_puzzle) lone_slot = []"
proof
  have "all_arcs lone_puzzle = []"
    by code_simp
  then show "ac3 lone_puzzle sched (enforce_node_consistency lone_puzzle (init_domains lone_puzzle)) None
     = Inr (True, enforce_node_consistency lone_puzzle (init_domains lone_puzzle))"
    by (simp add: ac3_def ac3_loop_Nil)
  show "enforce_node_consistency lone_puzzle (init_domains lone_puzzle) lone_slot = []"
    by code_simp
qed

text \<open>
  C6. After \<open>enforce_node_consistency\<close>, the domain of every variable of the puzzle holds
  exactly the words of its former domain whose length is the variable's length: every
  remaining word has the right length, and only words of another length were removed.
\<close>

theorem enforce_node_consistency_lengths:
  "var \<in> set (variables pz) \<Longrightarrow>
   set (enforce_node_consistency pz doms var) = {w \<in> set (doms var). length w = var_length var}"
  by (simp add: enforce_node_consistency_member)

theorem enforce_node_consistency_lengths_witness:
  "slot_down \<in> set (variables cross_puzzle)
   \<and> set (enforce_node_consistency cross_puzzle (init_domains cross_puzzle) slot_down)
       = {w \<in> set [''cat'', ''dog'', ''toe'', ''hats'']. length w = 3}"
  using enforce_node_consistency_lengths [of slot_down cross_puzzle "init_domains cross_puzzle"]
  by (simp add: cross_puzzle_def slot_down_def init_domains_def)

text \<open>
  C7. If \<open>backtrack\<close> returns \<open>None\<close>, the assignment it was given is, when the call
  returns, exactly what it was on entry: every binding added during the call has been
  removed again.
\<close>

theorem backtrack_undo:
  assumes "backtrack pz doms a calls = Inr (None, a', calls')"
  shows "a' = a"
  using backtrack_result(1) [OF assms] by simp

theorem backtrack_undo_witness:
  "\<exists>a' calls'. backtrack cross_puzzle (\<lambda>_. [''cat'']) [(slot_down, ''cat'')] 0 = Inr (None, a', calls')
      \<and> a' = [(slot_down, ''cat'')]"
  using backtrack_undo [OF cross_backtrack_fail_value] cross_backtrack_fail_value
  by blast

text \<open>
  C8. Domains never grow and the search never touches them: after
  \<open>enforce_node_consistency\<close>, after \<open>revise\<close> and after \<open>ac3\<close> the domain of every
  variable is a subset of what it was before the call; and the domains that \<open>solve\<close>
  leaves are the ones that \<open>ac3\<close> has left, so \<open>backtrack\<close>, which only reads them, has
  not changed them.
\<close>

theorem domains_never_grow:
  "set (enforce_node_consistency pz doms v) \<subseteq> set (doms v)
   \<and> (revise pz doms x y = Inr (rv, d1) \<longrightarrow> set (d1 v) \<subseteq> set (doms v))
   \<and> (ac3 pz sched doms arcs = Inr (ok, d2) \<longrightarrow> set (d2 v) \<subseteq> set (doms v))
   \<and> (solve pz sched doms = Inr (res, d3, n) \<longrightarrow>
        set (d3 v) \<subseteq> set (doms v)
        \<and> (\<exists>ok'. ac3 pz sched (enforce_node_consistency pz doms) None = Inr (ok', d3)))"
proof (intro conjI impI)
  show "set (enforce_node_consistency pz doms v) \<subseteq> set (doms v)"
    by (rule enforce_node_consistency_subset)
next
  assume "revise pz doms x y = Inr (rv, d1)"
  then show "set (d1 v) \<subseteq> set (doms v)"
    by (rule revise_subset)
next
  assume "ac3 pz sched doms arcs = Inr (ok, d2)"
  then show "set (d2 v) \<subseteq> set (doms v)"
    by (rule ac3_subset)
next
  assume s: "solve pz sched doms = Inr (res, d3, n)"
  from solve_Inr [OF s] obtain ok' where a: "ac3 pz sched (enforce_node_consistency pz doms) None = Inr (ok', d3)"
    by blast
  then show "\<exists>ok'. ac3 pz sched (enforce_node_consistency pz doms) None = Inr (ok', d3)" ..
  from ac3_subset [OF a] enforce_node_consistency_subset
  show "set (d3 v) \<subseteq> set (doms v)"
    by blast
qed

theorem domains_never_grow_witness:
  "\<exists>d1 d2 d3.
     revise cross_puzzle cross_domains slot_down slot_across = Inr (True, d1)
     \<and> ac3 cross_puzzle (\<lambda>_. 0) cross_domains None = Inr (True, d2)
     \<and> solve cross_puzzle (\<lambda>_. 0) (init_domains cross_puzzle)
          = Inr (Some [(slot_down, ''dog''), (slot_across, ''toe'')], d3, 3)
     \<and> set (d1 slot_down) \<subseteq> set (cross_domains slot_down)
     \<and> set (d2 slot_down) \<subseteq> set (cross_domains slot_down)
     \<and> set (d3 slot_down) \<subseteq> set (init_domains cross_puzzle slot_down)"
proof -
  obtain d1 where d1: "revise cross_puzzle cross_domains slot_down slot_across = Inr (True, d1)"
    using cross_revise_value
    by (cases "revise cross_puzzle cross_domains slot_down slot_across") auto
  obtain d2 where d2: "ac3 cross_puzzle (\<lambda>_. 0) cross_domains None = Inr (True, d2)"
    using cross_ac3_value
    by (cases "ac3 cross_puzzle (\<lambda>_. 0) cross_domains None") auto
  obtain d3 where d3: "solve cross_puzzle (\<lambda>_. 0) (init_domains cross_puzzle)
          = Inr (Some [(slot_down, ''dog''), (slot_across, ''toe'')], d3, 3)"
    using cross_solve_value
    by (cases "solve cross_puzzle (\<lambda>_. 0) (init_domains cross_puzzle)") auto
  from domains_never_grow [of cross_puzzle cross_domains slot_down slot_down slot_across True d1
      "\<lambda>_. 0" None True d2 _ _ _] d1 d2
  have "set (d1 slot_down) \<subseteq> set (cross_domains slot_down)"
    "set (d2 slot_down) \<subseteq> set (cross_domains slot_down)"
    by simp_all
  moreover
  from domains_never_grow [of cross_puzzle "init_domains cross_puzzle" slot_down _ _ _ _
      "\<lambda>_. 0" _ _ _ "Some [(slot_down, ''dog''), (slot_across, ''toe'')]" d3 3] d3
  have "set (d3 slot_down) \<subseteq> set (init_domains cross_puzzle slot_down)"
    by simp
  ultimately show ?thesis
    using d1 d2 d3 by blast
qed

text \<open>
  C9. Calling \<open>ac3\<close> with an empty collection of arcs is the same as calling it with
  \<open>None\<close>: the queue starts with every pair of a variable and one of its neighbors.
\<close>

theorem ac3_empty_arcs:
  "ac3 pz sched doms (Some []) = ac3 pz sched doms None
   \<and> ac3 pz sched doms (Some []) = ac3_loop pz sched 0 doms (all_arcs pz)
   \<and> set (all_arcs pz) = {(v, n). v \<in> set (variables pz) \<and> n \<in> set (neighbors pz v)}"
  by (simp add: ac3_def set_all_arcs)

text \<open>
  C10. If every word in the domain of \<open>x\<close> is longer than the offset \<open>a\<close> and every word
  in the domain of \<open>y\<close> is longer than the offset \<open>b\<close> of their overlap, then
  \<open>compare_domain\<close> returns normally and \<open>revise\<close> does not raise \<open>IndexError\<close>: no
  character is read out of bounds.
\<close>

theorem revise_in_bounds:
  assumes "overlaps pz x y = Some (a, b)"
    and "\<forall>w \<in> set (doms x). a < length w"
    and "\<forall>v \<in> set (doms y). b < length v"
  shows "(\<exists>r. compare_domain a b (doms x) (doms y) = Inr r)
         \<and> revise pz doms x y \<noteq> Inl IndexError"
proof
  from compare_domain_returns [OF assms(2,3)]
  show cd: "\<exists>r. compare_domain a b (doms x) (doms y) = Inr r" .
  then obtain r where r: "compare_domain a b (doms x) (doms y) = Inr r" ..
  show "revise pz doms x y \<noteq> Inl IndexError"
  proof (cases "overlaps_at pz x y")
    case (Inl e)
    then have "e = KeyError"
      by (simp add: overlaps_at_def split: if_splits)
    with Inl show ?thesis
      by (simp add: revise_def)
  next
    case (Inr ov)
    then have "ov = Some (a, b)"
      using assms(1) by (simp add: overlaps_at_Inr)
    with Inr r show ?thesis
      by (simp add: revise_def Let_def)
  qed
qed

theorem revise_in_bounds_witness:
  "overlaps cross_puzzle slot_down slot_across = Some (1, 1)
   \<and> compare_domain 1 1 (cross_domains slot_down) (cross_domains slot_across) = Inr [''dog'', ''toe'']
   \<and> revise cross_puzzle cross_domains slot_down slot_across \<noteq> Inl IndexError"
  using revise_in_bounds [of cross_puzzle slot_down slot_across 1 1 cross_domains]
    cross_revise_in_bounds_value
  by blast

end
